theory Spec2Isabelle
  imports
    Complex_Main
    "HOL-Library.AList"
    "HOL-Library.Char_ord"
    "HOL-Library.List_Lexorder"
    "HOL-Library.Product_Lexorder"
begin

section \<open>Graph (core/graph.py)\<close>

text \<open>
  Node identifiers are Python strings.  Edge weights are taken as integers: the tests and
  the JSON fixtures only use integral weights, on which the float arithmetic of the source
  is exact as long as every sum it forms stays below \<open>2 ^ 53\<close> in magnitude (\<open>exact_weights\<close>
  below is a bound on the graph that keeps them there).  The adjacency dictionary \<open>_adj : Dict[str, Dict[str, float]]\<close> keeps insertion
  order, which the algorithms observe through \<open>edges()\<close> and \<open>neighbors()\<close>, so it is an
  association list of association lists.
\<close>

type_synonym node = string
type_synonym adjacency = "(node \<times> int) list"
type_synonym graph = "(node \<times> adjacency) list"
type_synonym edge = "node \<times> node \<times> int"

text \<open>\<open>neighbors\<close>: \<open>self._adj.get(node, {})\<close>.\<close>

definition neighbors :: "graph \<Rightarrow> node \<Rightarrow> adjacency" where
  "neighbors g v = (case map_of g v of None \<Rightarrow> [] | Some nb \<Rightarrow> nb)"

text \<open>\<open>nodes\<close>: the keys of \<open>_adj\<close>, in insertion order.\<close>

definition nodes :: "graph \<Rightarrow> node list" where
  "nodes g = map fst g"

text \<open>
  \<open>add_edge\<close>: create the source's dictionary if it is missing, store the weight (a later
  edge between the same endpoints overwrites the earlier one), then make sure the target
  is a key too.  \<open>AList.update\<close> is Python's \<open>d[k] = v\<close>: an existing key keeps its place, a
  new one goes to the end.
\<close>

definition add_edge :: "graph \<Rightarrow> edge \<Rightarrow> graph" where
  "add_edge g e =
     (case e of (source, target, weight) \<Rightarrow>
        let g1 = AList.update source (AList.update target weight (neighbors g source)) g
        in if target \<in> set (nodes g1) then g1 else g1 @ [(target, [])])"

definition from_edge_list :: "edge list \<Rightarrow> graph" where
  "from_edge_list es = foldl add_edge [] es"

text \<open>\<open>edges\<close>: the generator over \<open>_adj.items()\<close> and each inner dictionary.\<close>

definition edges :: "graph \<Rightarrow> edge list" where
  "edges g = concat (map (\<lambda>(source, nb). map (\<lambda>(target, weight). (source, target, weight)) nb) g)"

definition has_negative_weights :: "graph \<Rightarrow> bool" where
  "has_negative_weights g = list_ex (\<lambda>(source, target, weight). weight < 0) (edges g)"

text \<open>
  The range in which the integers of this embedding are the doubles of the source.  A
  double holds every integer of magnitude up to \<open>2 ^ 53\<close>, and the sum of two of them is
  exact when it is in that range again.  Each relaxation round of Bellman-Ford looks at
  every edge once, so it moves a distance by at most the sum of the absolute weights; the
  rounds and the detection pass together form no sum beyond the number of nodes times that
  sum.  Dijkstra's costs and the validator's cost of a returned path are weights of paths
  without repeated edges, extended by one edge at most.  So on a graph with
  \<open>exact_weights\<close> the source computes what the embedding computes.  Statements about all
  graphs are made for graphs in this range.
\<close>

definition exact_weights :: "graph \<Rightarrow> bool" where
  "exact_weights g \<longleftrightarrow>
     (int (length (nodes g)) + 1) * (\<Sum>(source, target, weight) \<leftarrow> edges g. \<bar>weight\<bar>) < 2 ^ 53"

section \<open>Exceptions\<close>

text \<open>
  The exceptions the routing code raises.  \<open>NegativeCycleError\<close> is a subclass of
  \<open>ValueError\<close> carrying the cycle and its cost; the plain \<open>ValueError\<close>s differ in their
  message only (\<open>NotInList\<close> is the one \<open>list.remove\<close> raises).  \<open>OtherException\<close> stands for
  every class the engine has no handler for.
\<close>

datatype value_error =
    NonNegativeWeightsRequired
  | NoPathExists
  | UnknownAlgorithm string
  | NotInList

datatype validation_error =
    PathTooShort
  | EdgeDoesNotExist node node
  | CostMismatch int int

datatype exn =
    GraphValidationError node
  | ValueError value_error
  | NegativeCycleError "node list" int
  | ValidationError validation_error
  | TimeoutError
  | CircuitBreakerOpenError
  | OtherException string

text \<open>\<open>validate_nodes_exist\<close>: the first node of the list that is not a key raises.\<close>

fun validate_nodes_exist :: "graph \<Rightarrow> node list \<Rightarrow> exn + unit" where
  "validate_nodes_exist g [] = Inr ()"
| "validate_nodes_exist g (v # vs) =
     (if v \<notin> set (nodes g) then Inl (GraphValidationError v) else validate_nodes_exist g vs)"

section \<open>Path reconstruction\<close>

text \<open>
  \<open>_reconstruct_path\<close> follows the predecessor dictionary until \<open>prev.get(node)\<close> is \<open>None\<close>.
  Nothing in the loop bounds it: on a cyclic predecessor dictionary it never returns, which
  is the value \<open>None\<close> here.  The dictionary is a map; a key stored with the value \<open>None\<close>
  and a missing key read the same through \<open>.get\<close>.
\<close>

partial_function (option) reconstruct_loop ::
  "(node \<rightharpoonup> node) \<Rightarrow> node list \<Rightarrow> node option \<Rightarrow> node list option" where
  "reconstruct_loop prev path cur =
     (case cur of
        None \<Rightarrow> Some path
      | Some v \<Rightarrow> reconstruct_loop prev (path @ [v]) (prev v))"

declare reconstruct_loop.simps [code]

definition reconstruct_path :: "(node \<rightharpoonup> node) \<Rightarrow> node \<Rightarrow> node list option" where
  "reconstruct_path prev goal = map_option rev (reconstruct_loop prev [] (Some goal))"

section \<open>Dijkstra (core/algorithms/dijkstra.py)\<close>

text \<open>
  The heap holds \<open>(cost, node)\<close> tuples; \<open>heappop\<close> returns the least tuple in Python's
  tuple order (cost first, then the node string) and removes one copy of it.  The heap is
  kept as the bag of its entries.
\<close>

type_synonym heap = "(int \<times> node) list"

definition heappush :: "heap \<Rightarrow> int \<times> node \<Rightarrow> heap" where
  "heappush h x = h @ [x]"

definition heappop :: "heap \<Rightarrow> (int \<times> node) \<times> heap" where
  "heappop h = (let m = min_list h in (m, remove1 m h))"

text \<open>The body of \<open>for neighbor, weight in graph.neighbors(node).items()\<close>.\<close>

fun relax_neighbors ::
  "int \<Rightarrow> node \<Rightarrow> node set \<Rightarrow> adjacency \<Rightarrow>
   (node \<rightharpoonup> int) \<times> (node \<rightharpoonup> node) \<times> heap \<Rightarrow> (node \<rightharpoonup> int) \<times> (node \<rightharpoonup> node) \<times> heap" where
  "relax_neighbors cost u visited [] st = st"
| "relax_neighbors cost u visited ((neighbor, weight) # nb) (distm, prev, h) =
     (if neighbor \<in> visited then relax_neighbors cost u visited nb (distm, prev, h)
      else
        let new_cost = cost + weight in
        if (case distm neighbor of None \<Rightarrow> True | Some d \<Rightarrow> new_cost < d)
        then relax_neighbors cost u visited nb
               (distm(neighbor \<mapsto> new_cost), prev(neighbor \<mapsto> u), heappush h (new_cost, neighbor))
        else relax_neighbors cost u visited nb (distm, prev, h))"

lemma length_relax_neighbors:
  "length (snd (snd (relax_neighbors c u vis nb (d, p, h)))) \<le> length h + length nb"
proof (induction nb arbitrary: d p h)
  case Nil
  show ?case by simp
next
  case (Cons x nb)
  obtain v w where x: "x = (v, w)" by (cases x)
  have "length (snd (snd (relax_neighbors c u vis nb (d', p', heappush h y)))) \<le> Suc (length h + length nb)"
    for d' p' y
    using Cons.IH [of d' p' "heappush h y"] by (simp add: heappush_def)
  moreover have "length (snd (snd (relax_neighbors c u vis nb (d, p, h)))) \<le> Suc (length h + length nb)"
    using Cons.IH [of d p h] by simp
  ultimately show ?case by (simp add: x Let_def)
qed

definition pending :: "graph \<Rightarrow> node set \<Rightarrow> nat" where
  "pending g visited =
     sum_list (map (\<lambda>v. Suc (length (neighbors g v))) (filter (\<lambda>v. v \<notin> visited) (nodes g)))"

lemma sum_filter_insert_le:
  fixes f :: "'a \<Rightarrow> nat"
  shows "sum_list (map f (filter (\<lambda>v. v \<notin> insert u V) ks)) \<le> sum_list (map f (filter (\<lambda>v. v \<notin> V) ks))"
  by (induction ks) auto

lemma sum_filter_insert_less:
  fixes f :: "'a \<Rightarrow> nat"
  assumes "u \<in> set ks" "u \<notin> V"
  shows "sum_list (map f (filter (\<lambda>v. v \<notin> insert u V) ks)) + f u \<le> sum_list (map f (filter (\<lambda>v. v \<notin> V) ks))"
  using assms
proof (induction ks)
  case Nil
  then show ?case by simp
next
  case (Cons k ks)
  show ?case
  proof (cases "k = u")
    case True
    with Cons.prems sum_filter_insert_le [of f u V ks] show ?thesis by simp
  next
    case False
    with Cons show ?thesis by auto
  qed
qed

lemma pending_insert_le: "pending g (insert u visited) \<le> pending g visited"
  unfolding pending_def by (rule sum_filter_insert_le)

lemma pending_insert_less:
  "u \<in> set (nodes g) \<Longrightarrow> u \<notin> visited \<Longrightarrow>
   pending g (insert u visited) + Suc (length (neighbors g u)) \<le> pending g visited"
  unfolding pending_def by (rule sum_filter_insert_less)

lemma neighbors_not_node: "u \<notin> set (nodes g) \<Longrightarrow> neighbors g u = []"
  by (simp add: neighbors_def nodes_def map_of_eq_None_iff [THEN iffD2])

lemma heappop_length:
  assumes "h \<noteq> []" "heappop h = (x, h')"
  shows "Suc (length h') = length h"
proof -
  have "min_list h \<in> set h"
    using assms(1) by (simp add: min_list_Min)
  with assms show ?thesis
    by (auto simp: heappop_def Let_def length_remove1 intro: Suc_pred length_pos_if_in_set)
qed

text \<open>
  The \<open>while heap:\<close> loop.  It ends with the predecessor dictionary and the popped cost
  when the goal is finalized, and with the \<open>ValueError\<close> of the last line when the heap runs
  empty.
\<close>

function dijkstra_loop ::
  "graph \<Rightarrow> node \<Rightarrow> (node \<rightharpoonup> int) \<Rightarrow> (node \<rightharpoonup> node) \<Rightarrow> heap \<Rightarrow> node set \<Rightarrow>
   exn + (node \<rightharpoonup> node) \<times> int" where
  "dijkstra_loop g goal distm prev h visited =
     (if h = [] then Inl (ValueError NoPathExists)
      else
        case heappop h of ((cost, u), h') \<Rightarrow>
          if u \<in> visited then dijkstra_loop g goal distm prev h' visited
          else if u = goal then Inr (prev, cost)
          else
            case relax_neighbors cost u (insert u visited) (neighbors g u) (distm, prev, h') of
              (distm', prev', h'') \<Rightarrow> dijkstra_loop g goal distm' prev' h'' (insert u visited))"
  by pat_completeness auto
termination
proof (relation "measure (\<lambda>(g, goal, distm, prev, h, visited). length h + pending g visited)",
    goal_cases)
  case 1
  show ?case by simp
next
  case (2 g goal distm prev h visited x h' cost u)
  then have "Suc (length h') = length h"
    using heappop_length [of h "(cost, u)" h'] by simp
  then show ?case by simp
next
  case (3 g goal distm prev h visited x h' cost u distm' yb prev' h'')
  then have len: "Suc (length h') = length h"
    using heappop_length [of h "(cost, u)" h'] by simp
  have h'': "length h'' \<le> length h' + length (neighbors g u)"
    using length_relax_neighbors [of cost u "insert u visited" "neighbors g u" distm prev h'] 3
    by (metis snd_conv)
  show ?case
  proof (cases "u \<in> set (nodes g)")
    case True
    with 3 have "pending g (insert u visited) + Suc (length (neighbors g u)) \<le> pending g visited"
      by (intro pending_insert_less) auto
    with len h'' show ?thesis by simp
  next
    case False
    then have "neighbors g u = []" by (rule neighbors_not_node)
    with len h'' pending_insert_le [of g u visited] show ?thesis by simp
  qed
qed

text \<open>
  \<open>DijkstraAlgorithm.compute\<close>.  The result is \<open>None\<close> when the call does not return, which
  only \<open>_reconstruct_path\<close> could cause.
\<close>

definition dijkstra :: "graph \<Rightarrow> node \<Rightarrow> node \<Rightarrow> (exn + node list \<times> int) option" where
  "dijkstra g start goal =
     (if has_negative_weights g then Some (Inl (ValueError NonNegativeWeightsRequired))
      else
        case validate_nodes_exist g [start, goal] of
          Inl e \<Rightarrow> Some (Inl e)
        | Inr _ \<Rightarrow>
            (case dijkstra_loop g goal [start \<mapsto> 0] Map.empty [(0, start)] {} of
               Inl e \<Rightarrow> Some (Inl e)
             | Inr (prev, cost) \<Rightarrow>
                 map_option (\<lambda>path. Inr (path, cost)) (reconstruct_path prev goal)))"

section \<open>Bellman-Ford (core/algorithms/bellman_ford.py)\<close>

text \<open>
  The distance dictionary has every node as a key and starts at \<open>float("inf")\<close>.  Weights
  are finite, so the only special value is positive infinity: adding a weight to it gives
  infinity, nothing is above it, and it equals itself.
\<close>

datatype distance = Finite int | Infinity

fun dplus :: "distance \<Rightarrow> int \<Rightarrow> distance" where
  "dplus (Finite a) w = Finite (a + w)"
| "dplus Infinity w = Infinity"

fun dless :: "distance \<Rightarrow> distance \<Rightarrow> bool" where
  "dless (Finite a) (Finite b) = (a < b)"
| "dless (Finite a) Infinity = True"
| "dless Infinity b = False"

text \<open>One relaxation step: the body of \<open>for source, target, weight in graph.edges()\<close>.\<close>

fun relax_edge ::
  "(node \<Rightarrow> distance) \<times> (node \<rightharpoonup> node) \<times> bool \<Rightarrow> edge \<Rightarrow>
   (node \<Rightarrow> distance) \<times> (node \<rightharpoonup> node) \<times> bool" where
  "relax_edge (distm, prev, updated) (source, target, weight) =
     (if dless (dplus (distm source) weight) (distm target)
      then (distm(target := dplus (distm source) weight), prev(target \<mapsto> source), True)
      else (distm, prev, updated))"

definition relax_pass ::
  "edge list \<Rightarrow> (node \<Rightarrow> distance) \<times> (node \<rightharpoonup> node) \<Rightarrow>
   (node \<Rightarrow> distance) \<times> (node \<rightharpoonup> node) \<times> bool" where
  "relax_pass es st = foldl relax_edge (fst st, snd st, False) es"

text \<open>\<open>for _ in range(n - 1)\<close> with the early \<open>break\<close>.\<close>

fun relax_rounds ::
  "nat \<Rightarrow> edge list \<Rightarrow> (node \<Rightarrow> distance) \<times> (node \<rightharpoonup> node) \<Rightarrow>
   (node \<Rightarrow> distance) \<times> (node \<rightharpoonup> node)" where
  "relax_rounds 0 es st = st"
| "relax_rounds (Suc k) es st =
     (case relax_pass es st of (distm, prev, updated) \<Rightarrow>
        if \<not> updated then (distm, prev) else relax_rounds k es (distm, prev))"

text \<open>
  The inner \<open>for s, t, w in graph.edges()\<close> of the backward walk: the first edge into
  \<open>current\<close> whose relaxed distance matches becomes the new \<open>current\<close>; without one,
  \<open>current\<close> stays.
\<close>

fun find_predecessor :: "edge list \<Rightarrow> (node \<Rightarrow> distance) \<Rightarrow> node \<Rightarrow> node" where
  "find_predecessor [] distm current = current"
| "find_predecessor ((s, t, w) # es) distm current =
     (if t = current \<and> dplus (distm s) w = distm current then s
      else find_predecessor es distm current)"

text \<open>\<open>while current not in visited and len(cycle) < len(dist)\<close>.\<close>

function walk_back ::
  "edge list \<Rightarrow> (node \<Rightarrow> distance) \<Rightarrow> nat \<Rightarrow> node list \<Rightarrow> node set \<Rightarrow> node \<Rightarrow> node list" where
  "walk_back es distm n cycle visited current =
     (if current \<notin> visited \<and> length cycle < n
      then walk_back es distm n (cycle @ [current]) (insert current visited)
             (find_predecessor es distm current)
      else cycle)"
  by pat_completeness auto
termination
  by (relation "measure (\<lambda>(es, distm, n, cycle, visited, current). n - length cycle)") auto

text \<open>
  The cost loop: for each consecutive pair of the list, the weight of the first edge from
  the first to the second, when there is one.
\<close>

fun first_edge_weight :: "edge list \<Rightarrow> node \<Rightarrow> node \<Rightarrow> int" where
  "first_edge_weight [] a b = 0"
| "first_edge_weight ((s, t, w) # es) a b =
     (if s = a \<and> t = b then w else first_edge_weight es a b)"

fun cycle_cost_loop :: "edge list \<Rightarrow> node list \<Rightarrow> int \<Rightarrow> int" where
  "cycle_cost_loop es (a # b # cycle) acc =
     cycle_cost_loop es (b # cycle) (acc + first_edge_weight es a b)"
| "cycle_cost_loop es cycle acc = acc"

text \<open>\<open>_detect_negative_cycle\<close>: the first edge that still relaxes starts the walk.\<close>

fun detect_scan ::
  "edge list \<Rightarrow> edge list \<Rightarrow> (node \<Rightarrow> distance) \<Rightarrow> nat \<Rightarrow> (node list \<times> int) option" where
  "detect_scan all [] distm n = None"
| "detect_scan all ((source, target, weight) # es) distm n =
     (if dless (dplus (distm source) weight) (distm target)
      then
        let cycle = walk_back all distm n [target] {target} source
        in Some (rev cycle, cycle_cost_loop all cycle 0)
      else detect_scan all es distm n)"

definition detect_negative_cycle ::
  "graph \<Rightarrow> (node \<Rightarrow> distance) \<Rightarrow> (node list \<times> int) option" where
  "detect_negative_cycle g distm = detect_scan (edges g) (edges g) distm (length (nodes g))"

text \<open>\<open>BellmanFordAlgorithm.compute\<close>.\<close>

definition bellman_ford :: "graph \<Rightarrow> node \<Rightarrow> node \<Rightarrow> (exn + node list \<times> int) option" where
  "bellman_ford g start goal =
     (case validate_nodes_exist g [start, goal] of
        Inl e \<Rightarrow> Some (Inl e)
      | Inr _ \<Rightarrow>
          (case relax_rounds (length (nodes g) - 1) (edges g)
                  ((\<lambda>v. Infinity)(start := Finite 0), Map.empty) of
             (distm, prev) \<Rightarrow>
               (case detect_negative_cycle g distm of
                  Some (cycle, cycle_cost) \<Rightarrow> Some (Inl (NegativeCycleError cycle cycle_cost))
                | None \<Rightarrow>
                    (case distm goal of
                       Infinity \<Rightarrow> Some (Inl (ValueError NoPathExists))
                     | Finite c \<Rightarrow>
                         map_option (\<lambda>path. Inr (path, c)) (reconstruct_path prev goal)))))"

section \<open>Algorithm selection (core/algorithms/selector.py)\<close>

datatype algorithm = DijkstraAlgorithm | BellmanFordAlgorithm

fun name :: "algorithm \<Rightarrow> string" where
  "name DijkstraAlgorithm = ''dijkstra''"
| "name BellmanFordAlgorithm = ''bellman_ford''"

fun compute :: "algorithm \<Rightarrow> graph \<Rightarrow> node \<Rightarrow> node \<Rightarrow> (exn + node list \<times> int) option" where
  "compute DijkstraAlgorithm g start goal = dijkstra g start goal"
| "compute BellmanFordAlgorithm g start goal = bellman_ford g start goal"

definition select :: "graph \<Rightarrow> string \<Rightarrow> exn + algorithm" where
  "select g algorithm_hint =
     (if algorithm_hint = ''dijkstra'' then Inr DijkstraAlgorithm
      else if algorithm_hint = ''bellman_ford'' then Inr BellmanFordAlgorithm
      else if algorithm_hint = ''auto'' then
        (if has_negative_weights g then Inr BellmanFordAlgorithm else Inr DijkstraAlgorithm)
      else Inl (ValueError (UnknownAlgorithm algorithm_hint)))"

section \<open>Result validation (core/validator.py)\<close>

text \<open>The loop over consecutive pairs, accumulating the actual cost.\<close>

fun check_edges :: "graph \<Rightarrow> node list \<Rightarrow> int \<Rightarrow> exn + int" where
  "check_edges g (source # target # path) actual_cost =
     (case map_of (neighbors g source) target of
        None \<Rightarrow> Inl (ValidationError (EdgeDoesNotExist source target))
      | Some w \<Rightarrow> check_edges g (target # path) (actual_cost + w))"
| "check_edges g path actual_cost = Inr actual_cost"

text \<open>
  \<open>validate_path\<close>.  The tolerance test \<open>abs(actual_cost - expected_cost) > 1e-6\<close> is written
  with both sides scaled by \<open>10\<^sup>6\<close>.
\<close>

definition validate_path :: "graph \<Rightarrow> node list \<Rightarrow> int \<Rightarrow> exn + unit" where
  "validate_path g path expected_cost =
     (if length path < 2 then Inl (ValidationError PathTooShort)
      else
        case check_edges g path 0 of
          Inl e \<Rightarrow> Inl e
        | Inr actual_cost \<Rightarrow>
            if 1000000 * \<bar>actual_cost - expected_cost\<bar> > 1
            then Inl (ValidationError (CostMismatch expected_cost actual_cost))
            else Inr ())"

section \<open>Idempotency cache (resilience/cache.py)\<close>

text \<open>
  The clock is a parameter: \<open>now\<close> is what \<open>time.time()\<close> returns inside the call.  The
  dictionary \<open>_cache\<close> is an association list with distinct keys, \<open>_access_order\<close> the list
  of keys from least to most recently used.
\<close>

record 'r cache_entry =
  ce_request_id :: string
  ce_result :: 'r
  ce_timestamp :: real
  ce_ttl :: real

definition is_expired :: "'r cache_entry \<Rightarrow> real \<Rightarrow> bool" where
  "is_expired entry now = (now - ce_timestamp entry > ce_ttl entry)"

record 'r idempotency_cache =
  maxsize :: int
  default_ttl :: real
  cache :: "(string \<times> 'r cache_entry) list"
  access_order :: "string list"

text \<open>\<open>"|".join(key_parts)\<close>.\<close>

fun join :: "string \<Rightarrow> string list \<Rightarrow> string" where
  "join sep [] = []"
| "join sep [x] = x"
| "join sep (x # y # ys) = x @ sep @ join sep (y # ys)"

text \<open>
  \<open>_make_key\<close>.  The positional arguments arrive as their \<open>str()\<close>, the keyword arguments
  as name and \<open>str()\<close> of the value, and are sorted as Python sorts the item tuples.  The hex
  digest of SHA-256 is a parameter.
\<close>

definition make_key ::
  "(string \<Rightarrow> string) \<Rightarrow> string \<Rightarrow> string list \<Rightarrow> (string \<times> string) list \<Rightarrow> string" where
  "make_key digest request_id args kwargs =
     digest (join ''|'' ([request_id] @ args @ map (\<lambda>(k, v). k @ ''='' @ v) (sort kwargs)))"

text \<open>\<open>list.remove\<close> raises \<open>ValueError\<close> when the element is missing.\<close>

definition list_remove :: "'a \<Rightarrow> 'a list \<Rightarrow> exn + 'a list" where
  "list_remove x xs = (if x \<in> set xs then Inr (remove1 x xs) else Inl (ValueError NotInList))"

text \<open>
  \<open>get\<close>, after the key is made.  The result is the exception or the returned value,
  together with the cache as the call leaves it.
\<close>

definition cache_get ::
  "'r idempotency_cache \<Rightarrow> real \<Rightarrow> string \<Rightarrow> (exn + 'r option) \<times> 'r idempotency_cache" where
  "cache_get c now cache_key =
     (case map_of (cache c) cache_key of
        None \<Rightarrow> (Inr None, c)
      | Some entry \<Rightarrow>
          if is_expired entry now then
            (let c1 = c\<lparr>cache := AList.delete cache_key (cache c)\<rparr> in
             case list_remove cache_key (access_order c1) of
               Inl e \<Rightarrow> (Inl e, c1)
             | Inr order \<Rightarrow> (Inr None, c1\<lparr>access_order := order\<rparr>))
          else
            (case list_remove cache_key (access_order c) of
               Inl e \<Rightarrow> (Inl e, c)
             | Inr order \<Rightarrow> (Inr (Some (ce_result entry)), c\<lparr>access_order := order @ [cache_key]\<rparr>)))"

definition evict_lru :: "'r idempotency_cache \<Rightarrow> 'r idempotency_cache" where
  "evict_lru c =
     (case access_order c of
        [] \<Rightarrow> c
      | lru_key # order \<Rightarrow> c\<lparr>access_order := order, cache := AList.delete lru_key (cache c)\<rparr>)"

text \<open>\<open>put\<close>, after the key is made; \<open>ttl or self.default_ttl\<close> also replaces a zero.\<close>

definition cache_put ::
  "'r idempotency_cache \<Rightarrow> real \<Rightarrow> string \<Rightarrow> string \<Rightarrow> 'r \<Rightarrow> real option \<Rightarrow> 'r idempotency_cache" where
  "cache_put c now cache_key request_id result ttl =
     (let c1 = (if int (length (cache c)) \<ge> maxsize c \<and> cache_key \<notin> fst ` set (cache c)
                then evict_lru c else c);
          entry = \<lparr>ce_request_id = request_id, ce_result = result, ce_timestamp = now,
                   ce_ttl = (case ttl of None \<Rightarrow> default_ttl c
                             | Some t \<Rightarrow> if t = 0 then default_ttl c else t)\<rparr>;
          c2 = c1\<lparr>cache := AList.update cache_key entry (cache c1)\<rparr>;
          order = (if cache_key \<in> set (access_order c2) then remove1 cache_key (access_order c2)
                   else access_order c2)
      in c2\<lparr>access_order := order @ [cache_key]\<rparr>)"

definition get ::
  "'r idempotency_cache \<Rightarrow> real \<Rightarrow> (string \<Rightarrow> string) \<Rightarrow> string \<Rightarrow> string list \<Rightarrow>
   (string \<times> string) list \<Rightarrow> (exn + 'r option) \<times> 'r idempotency_cache" where
  "get c now digest request_id args kwargs = cache_get c now (make_key digest request_id args kwargs)"

definition put ::
  "'r idempotency_cache \<Rightarrow> real \<Rightarrow> (string \<Rightarrow> string) \<Rightarrow> string \<Rightarrow> 'r \<Rightarrow> real option \<Rightarrow>
   string list \<Rightarrow> (string \<times> string) list \<Rightarrow> 'r idempotency_cache" where
  "put c now digest request_id result ttl args kwargs =
     cache_put c now (make_key digest request_id args kwargs) request_id result ttl"

text \<open>
  What every method keeps: the keys of \<open>_cache\<close> are exactly the members of
  \<open>_access_order\<close>, each once.
\<close>

definition cache_inv :: "'r idempotency_cache \<Rightarrow> bool" where
  "cache_inv c \<longleftrightarrow>
     distinct (map fst (cache c)) \<and> distinct (access_order c) \<and>
     set (access_order c) = fst ` set (cache c)"

section \<open>Circuit breaker (resilience/circuit_breaker.py)\<close>

datatype circuit_state = CLOSED | OPEN | HALF_OPEN

record circuit_breaker =
  failure_threshold :: int
  timeout_duration :: real
  failure_count :: int
  last_failure_time :: "real option"
  cb_state :: circuit_state

text \<open>
  What the wrapped function does when it is called: it returns, raises one of the
  \<open>expected_exceptions\<close>, or raises something else.
\<close>

datatype 'a outcome = Returned 'a | RaisedExpected exn | RaisedOther exn

definition should_attempt_reset :: "circuit_breaker \<Rightarrow> real \<Rightarrow> bool" where
  "should_attempt_reset cb now =
     (case last_failure_time cb of
        None \<Rightarrow> False
      | Some t \<Rightarrow> now - t \<ge> timeout_duration cb)"

definition on_success :: "circuit_breaker \<Rightarrow> circuit_breaker" where
  "on_success cb =
     (if cb_state cb = HALF_OPEN then cb\<lparr>cb_state := CLOSED, failure_count := 0\<rparr> else cb)"

definition on_failure :: "circuit_breaker \<Rightarrow> real \<Rightarrow> circuit_breaker" where
  "on_failure cb now =
     (let cb1 = cb\<lparr>failure_count := failure_count cb + 1, last_failure_time := Some now\<rparr>
      in if cb_state cb1 = HALF_OPEN then cb1\<lparr>cb_state := OPEN\<rparr>
         else if failure_count cb1 \<ge> failure_threshold cb1 then cb1\<lparr>cb_state := OPEN\<rparr>
         else cb1)"

text \<open>
  \<open>call\<close>.  The wrapped function acts on a world \<open>'w\<close>, so that a call that is not
  dispatched leaves the world as it was; \<open>now\<close> is the clock at the gate and \<open>later\<close> the
  clock when a failure is recorded.  The result is what the caller sees: the returned
  value or the exception.  The message of \<open>CircuitBreakerOpenError\<close> subtracts
  \<open>last_failure_time\<close> from the clock, which is a \<open>TypeError\<close> when it is \<open>None\<close>.
\<close>

definition call ::
  "circuit_breaker \<Rightarrow> real \<Rightarrow> real \<Rightarrow> ('w \<Rightarrow> 'a outcome \<times> 'w) \<Rightarrow> 'w \<Rightarrow>
   (exn + 'a) \<times> circuit_breaker \<times> 'w" where
  "call cb now later func w =
     (if cb_state cb = OPEN \<and> \<not> should_attempt_reset cb now
      then
        (if last_failure_time cb = None then (Inl (OtherException ''TypeError''), cb, w)
         else (Inl CircuitBreakerOpenError, cb, w))
      else
        let cb1 = (if cb_state cb = OPEN then cb\<lparr>cb_state := HALF_OPEN\<rparr> else cb) in
        case func w of
          (Returned r, w') \<Rightarrow> (Inr r, on_success cb1, w')
        | (RaisedExpected e, w') \<Rightarrow> (Inl e, on_failure cb1 later, w')
        | (RaisedOther e, w') \<Rightarrow> (Inl e, cb1, w'))"

text \<open>A sequence of calls, each with its own clock readings and function.\<close>

fun calls ::
  "circuit_breaker \<Rightarrow> (real \<times> real \<times> ('w \<Rightarrow> 'a outcome \<times> 'w)) list \<Rightarrow> 'w \<Rightarrow>
   (exn + 'a) list \<times> circuit_breaker \<times> 'w" where
  "calls cb [] w = ([], cb, w)"
| "calls cb ((now, later, func) # rest) w =
     (case call cb now later func w of
        (r, cb', w') \<Rightarrow> (case calls cb' rest w' of (rs, cb'', w'') \<Rightarrow> (r # rs, cb'', w'')))"

section \<open>Routing engine (routing.py)\<close>

record route_request =
  request_id :: string
  graph_id :: string
  start_node :: node
  goal_node :: node
  algorithm_hint :: string
  timeout_ms :: int
  validate_result :: bool

text \<open>
  The metadata and error dictionaries of a response.  The measured computation time and
  the free-text message are left out; \<open>details\<close> holds \<open>cycle\<close> and \<open>cycle_cost\<close> when present.
\<close>

record route_metadata =
  algorithm_used :: string
  graph_nodes :: nat
  graph_edges :: nat
  cache_hit :: bool

record error_info =
  code :: string
  details :: "(node list \<times> int) option"

record route_response =
  r_request_id :: string
  r_status :: string
  r_path :: "node list option"
  r_cost :: "int option"
  r_metadata :: "route_metadata option"
  r_error :: "error_info option"

definition error_response ::
  "route_request \<Rightarrow> string \<Rightarrow> string \<Rightarrow> (node list \<times> int) option \<Rightarrow> route_response" where
  "error_response request status error_code dets =
     \<lparr>r_request_id = request_id request, r_status = status, r_path = None, r_cost = None,
      r_metadata = None, r_error = Some \<lparr>code = error_code, details = dets\<rparr>\<rparr>"

text \<open>The \<open>except\<close> clauses of \<open>compute_route\<close>, in their order.\<close>

fun handle_exception :: "route_request \<Rightarrow> exn \<Rightarrow> route_response" where
  "handle_exception request (NegativeCycleError cycle cycle_cost) =
     error_response request ''error'' ''NEGATIVE_CYCLE_DETECTED'' (Some (cycle, cycle_cost))"
| "handle_exception request TimeoutError =
     error_response request ''timeout'' ''COMPUTATION_TIMEOUT'' None"
| "handle_exception request CircuitBreakerOpenError =
     error_response request ''error'' ''CIRCUIT_BREAKER_OPEN'' None"
| "handle_exception request (GraphValidationError v) =
     error_response request ''error'' ''INVALID_GRAPH'' None"
| "handle_exception request (ValidationError r) =
     error_response request ''error'' ''INVALID_RESULT'' None"
| "handle_exception request (ValueError r) =
     error_response request ''error'' ''INVALID_INPUT'' None"
| "handle_exception request (OtherException c) =
     error_response request ''error'' ''INTERNAL_ERROR'' None"

text \<open>The key \<open>compute_route\<close> uses for both \<open>cache.get\<close> and \<open>cache.put\<close>.\<close>

definition request_key :: "(string \<Rightarrow> string) \<Rightarrow> route_request \<Rightarrow> string" where
  "request_key digest request =
     make_key digest (request_id request) []
       [(''graph_id'', graph_id request), (''start_node'', start_node request),
        (''goal_node'', goal_node request)]"

text \<open>
  \<open>cached_result.metadata["cache_hit"] = True\<close>: subscripting \<open>None\<close> is a \<open>TypeError\<close>.  The
  assignment changes the object the cache holds as well.
\<close>

definition mark_cache_hit :: "route_response \<Rightarrow> exn + route_response" where
  "mark_cache_hit cached_result =
     (case r_metadata cached_result of
        None \<Rightarrow> Inl (OtherException ''TypeError'')
      | Some m \<Rightarrow> Inr (cached_result\<lparr>r_metadata := Some (m\<lparr>cache_hit := True\<rparr>)\<rparr>))"

text \<open>
  \<open>timeout\<close> (resilience/timeout.py), the branch for systems with signals, entered from the
  main thread.  \<open>signal.setitimer\<close> is handed the number of seconds as it comes.  It refuses
  a negative number, and a number too large for the platform's time type, with an
  exception that is neither a \<open>TimeoutError\<close> nor a \<open>ValueError\<close>; this happens before the
  body is entered.  Zero seconds disarm the timer, so the body runs unlimited.  Otherwise
  the alarm raises \<open>TimeoutError\<close> inside the body when the body is still running as the
  time is up; a body that would never end is always interrupted.  What the clock does is
  not determined by the arguments, so it is a parameter: \<open>Refused\<close> when the timer cannot
  be armed (\<open>setitimer\<close>, or already the conversion of the limit to seconds, raises),
  \<open>Expired\<close> when the alarm goes off before the body has finished, \<open>Idle\<close> when the timer is
  armed and the body finishes first.
\<close>

datatype timer = Refused | Expired | Idle

definition timeout :: "real \<Rightarrow> timer \<Rightarrow> (exn + 'a) option \<Rightarrow> (exn + 'a) option" where
  "timeout seconds clock body =
     (if seconds < 0 \<or> clock = Refused then Some (Inl (OtherException ''ItimerError''))
      else if seconds = 0 then body
      else
        (case body of
           None \<Rightarrow> Some (Inl TimeoutError)
         | Some r \<Rightarrow> if clock = Expired then Some (Inl TimeoutError) else Some r))"

text \<open>
  \<open>compute_route\<close>.  \<open>loaded\<close> is what \<open>_load_graph_resilient\<close> gives for the request's
  graph: the graph, or the exception that left the retry loop.  \<open>now\<close> is the clock at the
  cache lookup and \<open>later\<close> at the insertion; \<open>clock\<close> is what the timer around the path
  computation does.  The result is \<open>None\<close> when the call does not return.
\<close>

definition compute_route ::
  "(string \<Rightarrow> string) \<Rightarrow> real \<Rightarrow> real \<Rightarrow> timer \<Rightarrow> exn + graph \<Rightarrow>
   route_response idempotency_cache \<Rightarrow> route_request \<Rightarrow>
   (route_response \<times> route_response idempotency_cache) option" where
  "compute_route digest now later clock loaded c request =
     (let key = request_key digest request in
      case cache_get c now key of
        (Inl e, c1) \<Rightarrow> Some (handle_exception request e, c1)
      | (Inr (Some cached_result), c1) \<Rightarrow>
          (case mark_cache_hit cached_result of
             Inl e \<Rightarrow> Some (handle_exception request e, c1)
           | Inr hit \<Rightarrow>
               Some (hit, c1\<lparr>cache := AList.map_entry key (\<lambda>entry. entry\<lparr>ce_result := hit\<rparr>) (cache c1)\<rparr>))
      | (Inr None, c1) \<Rightarrow>
          (case loaded of
             Inl e \<Rightarrow> Some (handle_exception request e, c1)
           | Inr g \<Rightarrow>
               (case validate_nodes_exist g [start_node request, goal_node request] of
                  Inl e \<Rightarrow> Some (handle_exception request e, c1)
                | Inr _ \<Rightarrow>
                    (case select g (algorithm_hint request) of
                       Inl e \<Rightarrow> Some (handle_exception request e, c1)
                     | Inr algorithm \<Rightarrow>
                         (case timeout (real_of_int (timeout_ms request) / 1000) clock
                                 (compute algorithm g (start_node request) (goal_node request)) of
                            None \<Rightarrow> None
                          | Some (Inl e) \<Rightarrow> Some (handle_exception request e, c1)
                          | Some (Inr (path, cost)) \<Rightarrow>
                              (case (if validate_result request then validate_path g path cost
                                     else Inr ()) of
                                 Inl e \<Rightarrow> Some (handle_exception request e, c1)
                               | Inr _ \<Rightarrow>
                                   let response =
                                     \<lparr>r_request_id = request_id request, r_status = ''success'',
                                      r_path = Some path, r_cost = Some cost,
                                      r_metadata =
                                        Some \<lparr>algorithm_used = name algorithm,
                                              graph_nodes = length (nodes g),
                                              graph_edges = length (edges g),
                                              cache_hit = False\<rparr>,
                                      r_error = None\<rparr>
                                   in Some (response,
                                        cache_put c1 later key (request_id request) response None)))))))"

section \<open>Request state machines\<close>

subsection \<open>Route planning (oswe-large: services/state_machine.py)\<close>

datatype plan_status =
  Plan_INIT | Plan_VALIDATED | Plan_FETCH_GRAPH | Plan_PLANNING | Plan_SUCCESS | Plan_FAILURE
  | Plan_COMPENSATED

record state_machine =
  sm_state :: plan_status
  sm_history :: "(plan_status \<times> string) list"

definition new_state_machine :: state_machine where
  "new_state_machine = \<lparr>sm_state = Plan_INIT, sm_history = []\<rparr>"

text \<open>\<open>StateMachine.transition\<close>: record where the machine was, then move.\<close>

definition sm_transition :: "state_machine \<Rightarrow> plan_status \<Rightarrow> string \<Rightarrow> state_machine" where
  "sm_transition sm new_state reason =
     sm\<lparr>sm_history := sm_history sm @ [(sm_state sm, reason)], sm_state := new_state\<rparr>"

subsection \<open>Appointments (raptor-secondary: services/state_machine.py)\<close>

datatype appointment_state = INIT | IN_PROGRESS | CONFIRMED | FAILED | COMPENSATING | COMPENSATED

fun ALLOWED_TRANSITIONS :: "appointment_state \<Rightarrow> appointment_state set" where
  "ALLOWED_TRANSITIONS INIT = {IN_PROGRESS}"
| "ALLOWED_TRANSITIONS IN_PROGRESS = {CONFIRMED, FAILED, COMPENSATING}"
| "ALLOWED_TRANSITIONS CONFIRMED = {COMPENSATING}"
| "ALLOWED_TRANSITIONS COMPENSATING = {COMPENSATED, FAILED}"
| "ALLOWED_TRANSITIONS FAILED = {IN_PROGRESS}"
| "ALLOWED_TRANSITIONS COMPENSATED = {}"

definition can_transition :: "appointment_state \<Rightarrow> appointment_state \<Rightarrow> bool" where
  "can_transition current target \<longleftrightarrow> target \<in> ALLOWED_TRANSITIONS current"

text \<open>
  \<open>transition\<close> answers whether the move is allowed, with the reason when it is not; the
  caller assigns the new state only on \<open>True\<close>.
\<close>

datatype refusal = Invalid_transition appointment_state appointment_state

definition transition :: "appointment_state \<Rightarrow> appointment_state \<Rightarrow> bool \<times> refusal option" where
  "transition current target =
     (if can_transition current target then (True, None)
      else (False, Some (Invalid_transition current target)))"

text \<open>
  Both call sites in the appointment service (\<open>process\<close> and \<open>_compensate\<close>) follow one
  pattern: the appointment's state is assigned the target only when \<open>transition\<close> agrees.
\<close>

definition attempt :: "appointment_state \<Rightarrow> appointment_state \<Rightarrow> appointment_state" where
  "attempt current target = (if fst (transition current target) then target else current)"

section \<open>Request validation of the unified service (routing_v2.py)\<close>

text \<open>
  The \<open>Graph\<close> dataclass of \<open>routing_v2\<close> keeps the raw edge dictionaries and builds the
  adjacency dictionary from them.  An edge dictionary may lack any of its keys:
  \<open>edge.get("source")\<close> and \<open>edge.get("target")\<close> are then \<open>None\<close>, and the weight
  defaults to zero.  An edge whose source or target is \<open>None\<close> or the empty string is
  skipped.
\<close>

type_synonym raw_edge = "string option \<times> string option \<times> int option"

definition truthy :: "string option \<Rightarrow> bool" where
  "truthy x = (case x of None \<Rightarrow> False | Some v \<Rightarrow> v \<noteq> [])"

definition raw_weight :: "raw_edge \<Rightarrow> int" where
  "raw_weight e = (case snd (snd e) of None \<Rightarrow> 0 | Some w \<Rightarrow> w)"

definition post_init_step :: "graph \<Rightarrow> raw_edge \<Rightarrow> graph" where
  "post_init_step adj e =
     (case e of (src, dst, w) \<Rightarrow>
        if truthy src \<and> truthy dst then add_edge adj (the src, the dst, raw_weight e) else adj)"

definition post_init :: "raw_edge list \<Rightarrow> graph" where
  "post_init raw = foldl post_init_step [] raw"

definition has_negative_weights_v2 :: "raw_edge list \<Rightarrow> bool" where
  "has_negative_weights_v2 raw = list_ex (\<lambda>e. raw_weight e < 0) raw"

text \<open>
  \<open>_has_negative_cycle\<close>: relaxation from the first node, \<open>len(nodes) - 1\<close> rounds without
  early exit, then one more look at every edge of a reached node.
\<close>

fun relax_out :: "node \<Rightarrow> adjacency \<Rightarrow> (node \<Rightarrow> distance) \<Rightarrow> (node \<Rightarrow> distance)" where
  "relax_out u [] distm = distm"
| "relax_out u ((v, w) # nb) distm =
     relax_out u nb
       (if dless (dplus (distm u) w) (distm v) then distm(v := dplus (distm u) w) else distm)"

fun relax_nodes :: "graph \<Rightarrow> node list \<Rightarrow> (node \<Rightarrow> distance) \<Rightarrow> (node \<Rightarrow> distance)" where
  "relax_nodes adj [] distm = distm"
| "relax_nodes adj (u # us) distm =
     relax_nodes adj us
       (if distm u = Infinity then distm else relax_out u (neighbors adj u) distm)"

fun relax_times :: "nat \<Rightarrow> graph \<Rightarrow> (node \<Rightarrow> distance) \<Rightarrow> (node \<Rightarrow> distance)" where
  "relax_times 0 adj distm = distm"
| "relax_times (Suc k) adj distm = relax_times k adj (relax_nodes adj (nodes adj) distm)"

definition has_negative_cycle :: "graph \<Rightarrow> bool" where
  "has_negative_cycle adj =
     (case nodes adj of
        [] \<Rightarrow> False
      | first # _ \<Rightarrow>
          let distm = relax_times (length (nodes adj) - 1) adj ((\<lambda>v. Infinity)(first := Finite 0))
          in list_ex
               (\<lambda>u. distm u \<noteq> Infinity \<and>
                    list_ex (\<lambda>(v, w). dless (dplus (distm u) w) (distm v)) (neighbors adj u))
               (nodes adj))"

text \<open>\<open>_is_reachable\<close>: breadth-first search with a list as queue.\<close>

function bfs_loop :: "graph \<Rightarrow> node \<Rightarrow> node list \<Rightarrow> node set \<Rightarrow> bool" where
  "bfs_loop adj goal queue visited =
     (case queue of
        [] \<Rightarrow> False
      | u # rest \<Rightarrow>
          if u = goal then True
          else if u \<in> visited then bfs_loop adj goal rest visited
          else bfs_loop adj goal
                 (rest @ filter (\<lambda>v. v \<notin> insert u visited) (map fst (neighbors adj u)))
                 (insert u visited))"
  by pat_completeness auto
termination
proof (relation "measure (\<lambda>(adj, goal, queue, visited). length queue + pending adj visited)",
    goal_cases)
  case 1
  show ?case by simp
next
  case (2 adj goal queue visited u rest)
  then show ?case by simp
next
  case (3 adj goal queue visited u rest)
  define queue' where "queue' = rest @ filter (\<lambda>v. v \<notin> insert u visited) (map fst (neighbors adj u))"
  have q: "length queue' \<le> length rest + length (neighbors adj u)"
    unfolding queue'_def by (simp add: le_trans [OF length_filter_le])
  have len: "length queue = Suc (length rest)"
    using 3 by simp
  have "length queue' + pending adj (insert u visited) < length queue + pending adj visited"
  proof (cases "u \<in> set (nodes adj)")
    case True
    with 3 have "pending adj (insert u visited) + Suc (length (neighbors adj u)) \<le> pending adj visited"
      by (intro pending_insert_less) auto
    with q len show ?thesis by linarith
  next
    case False
    then have "neighbors adj u = []" by (rule neighbors_not_node)
    with q len pending_insert_le [of adj u visited] show ?thesis by simp
  qed
  then show ?case
    unfolding queue'_def by simp
qed

definition is_reachable :: "graph \<Rightarrow> node \<Rightarrow> node \<Rightarrow> bool" where
  "is_reachable adj start goal = (if start = goal then True else bfs_loop adj goal [start] {})"

text \<open>\<open>_validate_graph\<close>: the verdict and the list of error codes.\<close>

definition validate_graph :: "raw_edge list \<Rightarrow> node \<Rightarrow> node \<Rightarrow> bool \<times> string list" where
  "validate_graph raw start goal =
     (let adj = post_init raw; ns = nodes adj in
      if ns = [] then (False, [''EMPTY_GRAPH''])
      else
        let errors = (if start \<notin> set ns then [''NODE_NOT_FOUND''] else []) @
                     (if goal \<notin> set ns then [''NODE_NOT_FOUND''] else [])
        in if errors \<noteq> [] then (False, errors)
           else
             let errors1 = (if has_negative_weights_v2 raw \<and> has_negative_cycle adj
                            then [''NEG_CYCLE''] else []);
                 errors2 = errors1 @ (if \<not> is_reachable adj start goal then [''NO_PATH_FOUND''] else [])
             in (errors2 = [], errors2))"

text \<open>
  Step 2 of \<open>RoutingService.compute_shortest_path\<close>, reached when the cache lookup of step 1
  misses or the cache is disabled: a failed validation ends the call with an error result
  whose code is the first error, and \<open>None\<close> here means that the call goes on to step 3.
  Identifiers, durations and statistics of the result are left out.
\<close>

record routing_result =
  v2_path :: "node list option"
  v2_cost :: "int option"
  v2_algorithm :: "string option"
  v2_status :: string
  v2_error_code :: "string option"
  v2_error_message :: "string option"

definition validation_step :: "raw_edge list \<Rightarrow> node \<Rightarrow> node \<Rightarrow> routing_result option" where
  "validation_step raw start goal =
     (case validate_graph raw start goal of
        (True, errors) \<Rightarrow> None
      | (False, errors) \<Rightarrow>
          Some \<lparr>v2_path = None, v2_cost = None, v2_algorithm = None, v2_status = ''error'',
                v2_error_code = (case errors of [] \<Rightarrow> None | e # _ \<Rightarrow> Some e),
                v2_error_message = Some (join ''; '' errors)\<rparr>)"

section \<open>Walks and the notions used to state correctness\<close>

text \<open>
  \<open>walk g u v W\<close>: there is a walk from \<open>u\<close> to \<open>v\<close> along edges of the graph whose weights
  sum to \<open>W\<close>.  A negative cycle reachable from \<open>s\<close> is a walk from \<open>s\<close> to some \<open>u\<close> and a
  walk from \<open>u\<close> to \<open>u\<close> of negative weight.
\<close>

inductive walk :: "graph \<Rightarrow> node \<Rightarrow> node \<Rightarrow> int \<Rightarrow> bool" for g :: graph and u :: node where
  walk_refl: "walk g u u 0"
| walk_step: "walk g u x W \<Longrightarrow> (x, v, w) \<in> set (edges g) \<Longrightarrow> walk g u v (W + w)"

text \<open>No edge can still be relaxed.\<close>

definition feasible :: "graph \<Rightarrow> (node \<Rightarrow> distance) \<Rightarrow> bool" where
  "feasible g distm \<longleftrightarrow> (\<forall>(u, v, w) \<in> set (edges g). \<not> dless (dplus (distm u) w) (distm v))"

text \<open>
  What the relaxation rounds of Bellman-Ford keep true: every finite distance is the
  weight of a walk from the start, the start's own distance is finite and at most zero,
  and the start has a predecessor only when its distance went below zero.
\<close>

definition bf_inv :: "graph \<Rightarrow> node \<Rightarrow> (node \<Rightarrow> distance) \<times> (node \<rightharpoonup> node) \<Rightarrow> bool" where
  "bf_inv g s st \<longleftrightarrow>
     (\<forall>v d. fst st v = Finite d \<longrightarrow> walk g s v d) \<and>
     (\<exists>d. fst st s = Finite d \<and> d \<le> 0) \<and>
     (snd st s \<noteq> None \<longrightarrow> (\<exists>d. fst st s = Finite d \<and> d < 0))"

definition dp :: "'a \<times> 'b \<times> 'c \<Rightarrow> 'a \<times> 'b" where
  "dp st = (fst st, fst (snd st))"


text \<open>
  A path that visits no node twice, with the list of its nodes and its weight.
\<close>

inductive spath :: "graph \<Rightarrow> node \<Rightarrow> node list \<Rightarrow> node \<Rightarrow> int \<Rightarrow> bool" for g :: graph and s :: node where
  spath_refl: "spath g s [s] s 0"
| spath_step: "spath g s vs x W \<Longrightarrow> (x, v, w) \<in> set (edges g) \<Longrightarrow> v \<notin> set vs \<Longrightarrow>
               spath g s (vs @ [v]) v (W + w)"







section \<open>Concrete data used below\<close>

text \<open>The example graph of the negative-weight scenario, built as the loaders build it.\<close>

definition example_graph :: graph where
  "example_graph = from_edge_list
     [(''A'', ''B'', 5), (''A'', ''C'', 2), (''C'', ''D'', 1), (''D'', ''F'', -3), (''F'', ''B'', 1),
      (''A'', ''E'', 1), (''E'', ''B'', 6)]"

text \<open>The cache of a freshly constructed \<open>RoutingEngine\<close>.\<close>

definition new_cache :: "'r idempotency_cache" where
  "new_cache = \<lparr>maxsize = 1000, default_ttl = 300, cache = [], access_order = []\<rparr>"

text \<open>A one-edge graph and requests on it that differ in the hint and in the validation flag.\<close>

definition tiny_graph :: graph where
  "tiny_graph = from_edge_list [(''A'', ''B'', 1)]"

definition tiny_request :: "string \<Rightarrow> node \<Rightarrow> bool \<Rightarrow> route_request" where
  "tiny_request hint goal validate =
     \<lparr>request_id = ''r1'', graph_id = ''g'', start_node = ''A'', goal_node = goal,
      algorithm_hint = hint, timeout_ms = 5000, validate_result = validate\<rparr>"

text \<open>A breaker that opens at two failures, and the two kinds of wrapped call.\<close>

definition breaker_of_two :: "int \<Rightarrow> real option \<Rightarrow> circuit_state \<Rightarrow> circuit_breaker" where
  "breaker_of_two n t st =
     \<lparr>failure_threshold = 2, timeout_duration = 60, failure_count = n, last_failure_time = t,
      cb_state = st\<rparr>"

definition failing :: "nat \<Rightarrow> unit outcome \<times> nat" where
  "failing w = (RaisedExpected (OtherException ''IOError''), Suc w)"

definition succeeding :: "nat \<Rightarrow> unit outcome \<times> nat" where
  "succeeding w = (Returned (), Suc w)"

text \<open>A cache for two entries holding \<open>k1\<close> (older) and \<open>k2\<close>, both stored at time 0.\<close>

definition two_entries :: "string idempotency_cache" where
  "two_entries =
     cache_put
       (cache_put \<lparr>maxsize = 2, default_ttl = 300, cache = [], access_order = []\<rparr>
          0 ''k1'' ''req-1'' ''result-1'' None)
       0 ''k2'' ''req-2'' ''result-2'' None"

text \<open>The response to a request from \<open>A\<close> to \<open>A\<close> that was computed without validation.\<close>

definition self_response :: "bool \<Rightarrow> route_response" where
  "self_response hit =
     \<lparr>r_request_id = ''r1'', r_status = ''success'', r_path = Some [''A''], r_cost = Some 0,
      r_metadata = Some \<lparr>algorithm_used = ''dijkstra'', graph_nodes = 2, graph_edges = 1,
                          cache_hit = hit\<rparr>,
      r_error = None\<rparr>"

text \<open>Two edges that form a cycle of weight \<open>-2\<close>, and the same with an exit to \<open>T\<close> first.\<close>

definition two_cycle :: graph where
  "two_cycle = from_edge_list [(''B'', ''A'', -3), (''A'', ''B'', 1)]"

definition cycle_with_exit :: graph where
  "cycle_with_exit = from_edge_list [(''A'', ''T'', 1), (''A'', ''B'', 1), (''B'', ''A'', -3)]"

text \<open>The success response for the request from \<open>A\<close> to \<open>B\<close> on the one-edge graph.\<close>

definition tiny_response :: "bool \<Rightarrow> route_response" where
  "tiny_response hit =
     \<lparr>r_request_id = ''r1'', r_status = ''success'', r_path = Some [''A'', ''B''], r_cost = Some 1,
      r_metadata = Some \<lparr>algorithm_used = ''dijkstra'', graph_nodes = 2, graph_edges = 1,
                          cache_hit = hit\<rparr>,
      r_error = None\<rparr>"


section \<open>Dijkstra refuses negative weights\<close>

lemma has_negative_weights_iff:
  "has_negative_weights g \<longleftrightarrow> (\<exists>(source, target, weight) \<in> set (edges g). weight < 0)"
  by (auto simp: has_negative_weights_def list_ex_iff)

text \<open>
  C3.  Whenever the graph has an edge of negative weight, wherever it lies,
  \<open>DijkstraAlgorithm.compute\<close> raises the \<open>ValueError\<close> about non-negative weights.  The
  check is the first statement, so neither the node validation nor the search runs, and
  no result is returned.
\<close>

theorem dijkstra_rejects_negative_weights:
  assumes "(source, target, weight) \<in> set (edges g)" and "weight < 0"
  shows "dijkstra g start goal = Some (Inl (ValueError NonNegativeWeightsRequired))"
proof -
  have "has_negative_weights g"
    using assms by (auto simp: has_negative_weights_iff)
  then show ?thesis by (simp add: dijkstra_def)
qed

text \<open>The negative edge \<open>C \<rightarrow> D\<close> cannot be reached from \<open>A\<close>; the call is refused all the same.\<close>

theorem dijkstra_rejects_negative_weights_witness:
  "(''C'', ''D'', -2) \<in> set (edges (from_edge_list [(''A'', ''B'', 5), (''C'', ''D'', -2)])) \<and>
   dijkstra (from_edge_list [(''A'', ''B'', 5), (''C'', ''D'', -2)]) ''A'' ''B''
     = Some (Inl (ValueError NonNegativeWeightsRequired))"
proof -
  have e: "(''C'', ''D'', -2) \<in> set (edges (from_edge_list [(''A'', ''B'', 5), (''C'', ''D'', -2)]))"
    by code_simp
  show ?thesis
    using e dijkstra_rejects_negative_weights [OF e, of "''A''" "''B''"] by simp
qed

section \<open>The negative-weight scenario\<close>

lemma example_select: "select example_graph ''auto'' = Inr BellmanFordAlgorithm"
  by code_simp

lemma example_bellman_ford:
  "bellman_ford example_graph ''A'' ''B'' = Some (Inr ([''A'', ''C'', ''D'', ''F'', ''B''], 1))"
  by code_simp

lemma example_validate_path:
  "validate_path example_graph [''A'', ''C'', ''D'', ''F'', ''B''] 1 = Inr ()"
  by code_simp

lemma example_nodes_exist: "validate_nodes_exist example_graph [''A'', ''B''] = Inr ()"
  by code_simp

lemma example_sizes: "length (nodes example_graph) = 6" "length (edges example_graph) = 7"
  by code_simp+

lemma example_negative: "has_negative_weights example_graph"
  by code_simp

text \<open>
  C4.  The hint \<open>auto\<close> selects Bellman-Ford exactly when the graph has an edge of negative
  weight, and Dijkstra otherwise.  The example graph has one (\<open>D \<rightarrow> F\<close>), so \<open>auto\<close> selects
  Bellman-Ford on it, under the name \<open>bellman_ford\<close>; Bellman-Ford returns the path
  \<open>A, C, D, F, B\<close> with cost 1; and a fresh engine answers the request from \<open>A\<close> to \<open>B\<close>
  with exactly that path and cost, naming \<open>bellman_ford\<close> as the algorithm used, whether
  or not the result is validated.  This is for a time limit that the timer accepts (not
  negative, and below \<open>2 ^ 31\<close> milliseconds) and a computation that finishes within it.
\<close>

theorem example_route_auto:
  assumes "0 \<le> t" and "t < 2 ^ 31"
  shows "select g ''auto'' =
           Inr (if has_negative_weights g then BellmanFordAlgorithm else DijkstraAlgorithm) \<and>
         has_negative_weights example_graph \<and>
         select example_graph ''auto'' = Inr BellmanFordAlgorithm \<and>
         name BellmanFordAlgorithm = ''bellman_ford'' \<and>
         bellman_ford example_graph ''A'' ''B'' =
           Some (Inr ([''A'', ''C'', ''D'', ''F'', ''B''], 1)) \<and>
         map_option fst
           (compute_route digest now later Idle (Inr example_graph) new_cache
              \<lparr>request_id = rid, graph_id = gid, start_node = ''A'', goal_node = ''B'',
               algorithm_hint = ''auto'', timeout_ms = t, validate_result = v\<rparr>) =
         Some \<lparr>r_request_id = rid, r_status = ''success'',
               r_path = Some [''A'', ''C'', ''D'', ''F'', ''B''], r_cost = Some 1,
               r_metadata = Some \<lparr>algorithm_used = ''bellman_ford'', graph_nodes = 6,
                                   graph_edges = 7, cache_hit = False\<rparr>,
               r_error = None\<rparr>"
proof -
  have "select g ''auto'' =
          Inr (if has_negative_weights g then BellmanFordAlgorithm else DijkstraAlgorithm)"
    by (simp add: select_def)
  moreover have "map_option fst
           (compute_route digest now later Idle (Inr example_graph) new_cache
              \<lparr>request_id = rid, graph_id = gid, start_node = ''A'', goal_node = ''B'',
               algorithm_hint = ''auto'', timeout_ms = t, validate_result = v\<rparr>) =
         Some \<lparr>r_request_id = rid, r_status = ''success'',
               r_path = Some [''A'', ''C'', ''D'', ''F'', ''B''], r_cost = Some 1,
               r_metadata = Some \<lparr>algorithm_used = ''bellman_ford'', graph_nodes = 6,
                                   graph_edges = 7, cache_hit = False\<rparr>,
               r_error = None\<rparr>"
    using assms(1)
    by (simp add: compute_route_def new_cache_def cache_get_def timeout_def example_select
        example_bellman_ford example_validate_path example_nodes_exist example_sizes Let_def
        del: validate_nodes_exist.simps)
  ultimately show ?thesis
    by (simp add: example_negative example_select example_bellman_ford)
qed

text \<open>
  The request of the scenario with the default limit of five seconds, validation enabled.
\<close>

theorem example_route_auto_witness:
  "(0::int) \<le> 5000 \<and> (5000::int) < 2 ^ 31 \<and>
   select tiny_graph ''auto'' = Inr DijkstraAlgorithm \<and>
   select example_graph ''auto'' = Inr BellmanFordAlgorithm \<and>
   map_option fst
     (compute_route id 0 1 Idle (Inr example_graph) new_cache
        \<lparr>request_id = ''r1'', graph_id = ''negative_weight'', start_node = ''A'',
         goal_node = ''B'', algorithm_hint = ''auto'', timeout_ms = 5000,
         validate_result = True\<rparr>) =
   Some \<lparr>r_request_id = ''r1'', r_status = ''success'',
         r_path = Some [''A'', ''C'', ''D'', ''F'', ''B''], r_cost = Some 1,
         r_metadata = Some \<lparr>algorithm_used = ''bellman_ford'', graph_nodes = 6,
                             graph_edges = 7, cache_hit = False\<rparr>,
         r_error = None\<rparr>"
proof -
  have pos: "\<not> has_negative_weights tiny_graph"
    by code_simp
  have t: "(0::int) \<le> 5000" "(5000::int) < 2 ^ 31"
    by simp_all
  show ?thesis
    using pos example_route_auto [OF t, of tiny_graph id 0 1 "''r1''" "''negative_weight''" True]
    by simp
qed

section \<open>Circuit breaker\<close>

text \<open>
  With a threshold of two, a failure, a success and another failure open the breaker:
  the success in between did not reset the count, so the two failures were never
  consecutive.
\<close>

theorem breaker_counts_all_failures_counterexample:
  "cb_state (fst (snd (calls (breaker_of_two 0 None CLOSED)
       [(0, 0, failing), (1, 1, succeeding), (2, 2, failing)] 0))) = OPEN"
  by (simp add: breaker_of_two_def call_def failing_def succeeding_def on_failure_def
      on_success_def Let_def)

text \<open>
  C5, as the code has it.  While CLOSED, every counted failure adds one to the failure
  count and the breaker opens as soon as the count reaches the threshold; a success while
  CLOSED changes nothing, the count included.  While OPEN and before \<open>timeout_duration\<close>
  has passed since the last failure, the call is refused with \<open>CircuitBreakerOpenError\<close>
  whatever the wrapped function is, and the world is untouched: nothing was dispatched.
  Once the duration has passed, the call is dispatched as the trial: its success closes
  the breaker and resets the count, its counted failure reopens the breaker and restarts
  the cool-down at the time of that failure.
\<close>

theorem breaker_behaviour:
  "(cb_state cb = CLOSED \<and> func w = (RaisedExpected e, w') \<longrightarrow>
      call cb now later func w =
        (Inl e,
         cb\<lparr>failure_count := failure_count cb + 1, last_failure_time := Some later,
            cb_state := (if failure_count cb + 1 \<ge> failure_threshold cb then OPEN else CLOSED)\<rparr>,
         w')) \<and>
   (cb_state cb = CLOSED \<and> func w = (Returned r, w') \<longrightarrow>
      call cb now later func w = (Inr r, cb, w')) \<and>
   (cb_state cb = OPEN \<and> last_failure_time cb = Some t \<and> now - t < timeout_duration cb \<longrightarrow>
      call cb now later func w = (Inl CircuitBreakerOpenError, cb, w)) \<and>
   (cb_state cb = OPEN \<and> last_failure_time cb = Some t \<and> now - t \<ge> timeout_duration cb \<and>
    func w = (Returned r, w') \<longrightarrow>
      call cb now later func w = (Inr r, cb\<lparr>cb_state := CLOSED, failure_count := 0\<rparr>, w')) \<and>
   (cb_state cb = OPEN \<and> last_failure_time cb = Some t \<and> now - t \<ge> timeout_duration cb \<and>
    func w = (RaisedExpected e, w') \<longrightarrow>
      call cb now later func w =
        (Inl e,
         cb\<lparr>failure_count := failure_count cb + 1, last_failure_time := Some later,
            cb_state := OPEN\<rparr>,
         w'))"
  by (auto simp: call_def on_failure_def on_success_def should_attempt_reset_def Let_def)

theorem breaker_behaviour_witness:
  "call (breaker_of_two 1 None CLOSED) 0 5 failing 0 =
     (Inl (OtherException ''IOError''), breaker_of_two 2 (Some 5) OPEN, 1) \<and>
   call (breaker_of_two 1 None CLOSED) 0 5 succeeding 0 =
     (Inr (), breaker_of_two 1 None CLOSED, 1) \<and>
   call (breaker_of_two 2 (Some 5) OPEN) 10 11 succeeding 0 =
     (Inl CircuitBreakerOpenError, breaker_of_two 2 (Some 5) OPEN, 0) \<and>
   call (breaker_of_two 2 (Some 5) OPEN) 65 66 succeeding 0 =
     (Inr (), breaker_of_two 0 (Some 5) CLOSED, 1) \<and>
   call (breaker_of_two 2 (Some 5) OPEN) 65 66 failing 0 =
     (Inl (OtherException ''IOError''), breaker_of_two 3 (Some 66) OPEN, 1)"
  using
    breaker_behaviour [of "breaker_of_two 1 None CLOSED" failing 0 "OtherException ''IOError''" 1 0 5]
    breaker_behaviour [of "breaker_of_two 1 None CLOSED" succeeding 0 _ 1 0 5 "()"]
    breaker_behaviour [of "breaker_of_two 2 (Some 5) OPEN" succeeding 0 _ _ 10 11 _ 5]
    breaker_behaviour [of "breaker_of_two 2 (Some 5) OPEN" succeeding 0 _ 1 65 66 "()" 5]
    breaker_behaviour [of "breaker_of_two 2 (Some 5) OPEN" failing 0 "OtherException ''IOError''" 1 65 66 _ 5]
  by (simp add: breaker_of_two_def failing_def succeeding_def)

section \<open>Request fingerprint\<close>

lemma sort_key_parts:
  "sort [(''graph_id'', a), (''start_node'', b), (''goal_node'', c)] =
     [(''goal_node'', c), (''graph_id'', a), (''start_node'', b)]"
  by (simp add: less_eq_prod_def)

lemma request_key_eq:
  "request_key digest request =
     digest (request_id request @ ''|goal_node='' @ goal_node request @ ''|graph_id='' @
             graph_id request @ ''|start_node='' @ start_node request)"
  by (simp add: request_key_def make_key_def sort_key_parts)

text \<open>
  Two requests that differ in the hint only have the same key, already before hashing
  (the digest is the identity here).
\<close>

theorem hint_not_in_fingerprint_counterexample:
  "request_key id (tiny_request ''dijkstra'' ''B'' True) =
     request_key id (tiny_request ''bellman_ford'' ''B'' True) \<and>
   algorithm_hint (tiny_request ''dijkstra'' ''B'' True) \<noteq>
     algorithm_hint (tiny_request ''bellman_ford'' ''B'' True)"
  by (simp add: request_key_def tiny_request_def)

lemma cache_get_after_put:
  assumes "t2 - t \<le> default_ttl c"
  shows "\<exists>c'. cache_get (cache_put c t key rid res None) t2 key = (Inr (Some res), c')"
  using assms
  by (simp add: cache_get_def cache_put_def Let_def AList.update_conv' is_expired_def
      list_remove_def evict_lru_def split: list.splits)

lemma handle_exception_status: "r_status (handle_exception request e) \<noteq> ''success''"
  by (cases e) (simp_all add: error_response_def)

lemma compute_route_miss_success:
  assumes "map_of (cache c) (request_key digest r) = None"
    and "compute_route digest t t' clock loaded c r = Some (resp, c')"
    and "r_status resp = ''success''"
  shows "c' = cache_put c t' (request_key digest r) (request_id r) resp None \<and>
         (\<exists>m. r_metadata resp = Some m \<and> \<not> cache_hit m)"
  using assms handle_exception_status
  by (auto simp: compute_route_def cache_get_def timeout_def error_response_def Let_def
      split: sum.splits option.splits prod.splits if_splits simp del: validate_nodes_exist.simps)

text \<open>
  C6, as the code has it.  The key is the digest of the request id, the graph id, the start
  node and the goal node; the hint is not part of it.  So two requests that agree on those
  four fields have the same key whatever their hints are, and are the same request for the
  cache: when the first one missed the cache and succeeded, the second one, arriving
  within the time-to-live, is answered with the first one's stored response (marked as a
  cache hit) without any computation, whatever graph the loader would give it and
  whatever the timers of the two calls do.
\<close>

theorem fingerprint_ignores_hint:
  assumes same: "request_id r2 = request_id r1 \<and> graph_id r2 = graph_id r1 \<and>
                 start_node r2 = start_node r1 \<and> goal_node r2 = goal_node r1"
  shows "request_key digest r2 = request_key digest r1 \<and>
         (map_of (cache c) (request_key digest r1) = None \<and>
          compute_route digest t1 t1' clock loaded c r1 = Some (resp, c') \<and>
          r_status resp = ''success'' \<and> t2 - t1' \<le> default_ttl c \<longrightarrow>
          (\<exists>m c''. r_metadata resp = Some m \<and>
             compute_route digest t2 t2' clock' loaded' c' r2 =
               Some (resp\<lparr>r_metadata := Some (m\<lparr>cache_hit := True\<rparr>)\<rparr>, c'')))"
proof (intro conjI impI)
  show key: "request_key digest r2 = request_key digest r1"
    using same by (simp add: request_key_def)
  assume a: "map_of (cache c) (request_key digest r1) = None \<and>
          compute_route digest t1 t1' clock loaded c r1 = Some (resp, c') \<and>
          r_status resp = ''success'' \<and> t2 - t1' \<le> default_ttl c"
  then obtain m where c': "c' = cache_put c t1' (request_key digest r1) (request_id r1) resp None"
    and m: "r_metadata resp = Some m"
    using compute_route_miss_success [of c digest r1 t1 t1' clock loaded resp c'] by auto
  from a obtain c1 where "cache_get c' t2 (request_key digest r1) = (Inr (Some resp), c1)"
    unfolding c' using cache_get_after_put [of t2 t1' c "request_key digest r1" "request_id r1" resp]
    by auto
  then show "\<exists>m c''. r_metadata resp = Some m \<and>
             compute_route digest t2 t2' clock' loaded' c' r2 =
               Some (resp\<lparr>r_metadata := Some (m\<lparr>cache_hit := True\<rparr>)\<rparr>, c'')"
    using m key by (simp add: compute_route_def mark_cache_hit_def)
qed

lemma tiny_dijkstra: "dijkstra tiny_graph ''A'' ''B'' = Some (Inr ([''A'', ''B''], 1))"
  by code_simp

lemma tiny_validate_path: "validate_path tiny_graph [''A'', ''B''] 1 = Inr ()"
  by code_simp

lemma tiny_nodes_exist: "validate_nodes_exist tiny_graph [''A'', ''B''] = Inr ()"
  by code_simp

lemma tiny_sizes: "length (nodes tiny_graph) = 2" "length (edges tiny_graph) = 1"
  by code_simp+

lemma tiny_first:
  "compute_route id 0 1 Idle (Inr tiny_graph) new_cache (tiny_request ''dijkstra'' ''B'' True) =
     Some (tiny_response False,
           cache_put new_cache 1 (request_key id (tiny_request ''dijkstra'' ''B'' True)) ''r1''
             (tiny_response False) None)"
  by (simp add: compute_route_def new_cache_def cache_get_def tiny_request_def tiny_response_def
      timeout_def tiny_dijkstra tiny_validate_path tiny_nodes_exist tiny_sizes select_def Let_def
      del: validate_nodes_exist.simps)

text \<open>
  The request with hint \<open>dijkstra\<close> is computed and stored; the same request with hint
  \<open>bellman_ford\<close>, two seconds later, gets the stored response, which still names \<open>dijkstra\<close>.
\<close>

theorem fingerprint_ignores_hint_witness:
  "compute_route id 0 1 Idle (Inr tiny_graph) new_cache (tiny_request ''dijkstra'' ''B'' True) =
     Some (tiny_response False,
           cache_put new_cache 1 (request_key id (tiny_request ''dijkstra'' ''B'' True)) ''r1''
             (tiny_response False) None) \<and>
   map_option fst
     (compute_route id 2 3 Idle (Inr tiny_graph)
        (cache_put new_cache 1 (request_key id (tiny_request ''dijkstra'' ''B'' True)) ''r1''
           (tiny_response False) None)
        (tiny_request ''bellman_ford'' ''B'' True)) =
     Some (tiny_response True)"
proof -
  have same:
    "request_id (tiny_request ''bellman_ford'' ''B'' True) = request_id (tiny_request ''dijkstra'' ''B'' True) \<and>
     graph_id (tiny_request ''bellman_ford'' ''B'' True) = graph_id (tiny_request ''dijkstra'' ''B'' True) \<and>
     start_node (tiny_request ''bellman_ford'' ''B'' True) = start_node (tiny_request ''dijkstra'' ''B'' True) \<and>
     goal_node (tiny_request ''bellman_ford'' ''B'' True) = goal_node (tiny_request ''dijkstra'' ''B'' True)"
    by (simp add: tiny_request_def)
  have miss: "map_of (cache new_cache) (request_key id (tiny_request ''dijkstra'' ''B'' True)) = None"
    by (simp add: new_cache_def)
  have ok: "r_status (tiny_response False) = ''success''"
    by (simp add: tiny_response_def)
  have ttl: "2 - 1 \<le> default_ttl (new_cache :: route_response idempotency_cache)"
    by (simp add: new_cache_def)
  show ?thesis
    using fingerprint_ignores_hint [OF same, of id new_cache 0 1 Idle "Inr tiny_graph"
        "tiny_response False" _ 2 3 Idle "Inr tiny_graph"] miss tiny_first ok ttl
    by (auto simp: tiny_response_def)
qed

section \<open>Eviction and expiry in the idempotency cache\<close>

lemma keys_delete: "fst ` set (AList.delete k al) = fst ` set al - {k}"
  using AList.delete_keys [of k al, THEN arg_cong, of set] by (simp add: image_set [symmetric] del: image_set) 

lemma cache_put_evicts:
  assumes inv: "cache_inv c"
    and full: "int (length (cache c)) \<ge> maxsize c"
    and new: "key \<notin> fst ` set (cache c)"
    and order: "access_order c = lru # order"
  shows "map_of (cache (cache_put c now key rid res ttl)) lru = None"
    and "\<forall>k. k \<noteq> lru \<and> k \<noteq> key \<longrightarrow> map_of (cache (cache_put c now key rid res ttl)) k = map_of (cache c) k"
    and "\<exists>e. map_of (cache (cache_put c now key rid res ttl)) key = Some e \<and> ce_result e = res"
    and "access_order (cache_put c now key rid res ttl) = order @ [key]"
proof -
  have lru: "lru \<in> fst ` set (cache c)" "lru \<noteq> key" "key \<notin> set order" "lru \<notin> set order" "distinct order"
    using inv order new by (auto simp: cache_inv_def)
  show "map_of (cache (cache_put c now key rid res ttl)) lru = None"
    using full new order lru
    by (simp add: cache_put_def evict_lru_def Let_def AList.update_conv' AList.delete_conv')
  show "\<forall>k. k \<noteq> lru \<and> k \<noteq> key \<longrightarrow> map_of (cache (cache_put c now key rid res ttl)) k = map_of (cache c) k"
    using full new order lru
    by (simp add: cache_put_def evict_lru_def Let_def AList.update_conv' AList.delete_conv')
  show "\<exists>e. map_of (cache (cache_put c now key rid res ttl)) key = Some e \<and> ce_result e = res"
    using full new order lru
    by (simp add: cache_put_def evict_lru_def Let_def AList.update_conv' AList.delete_conv')
  show "access_order (cache_put c now key rid res ttl) = order @ [key]"
    using full new order lru
    by (simp add: cache_put_def evict_lru_def Let_def)
qed

lemma cache_inv_evict:
  assumes "cache_inv c"
  shows "cache_inv (evict_lru c)"
proof (cases "access_order c")
  case Nil
  then show ?thesis using assms by (simp add: evict_lru_def)
next
  case (Cons lru order)
  with assms have "set order = fst ` set (cache c) - {lru}"
    by (auto simp: cache_inv_def)
  with assms Cons show ?thesis
    by (simp add: evict_lru_def cache_inv_def AList.distinct_delete keys_delete)
qed

lemma cache_inv_put:
  assumes "cache_inv c"
  shows "cache_inv (cache_put c now key rid res ttl)"
proof -
  define c1 where "c1 = (if int (length (cache c)) \<ge> maxsize c \<and> key \<notin> fst ` set (cache c)
                then evict_lru c else c)"
  have c1: "cache_inv c1"
    using assms cache_inv_evict [OF assms] by (simp add: c1_def)
  show ?thesis
    unfolding cache_put_def Let_def c1_def [symmetric]
    using c1 by (auto simp: cache_inv_def AList.distinct_update AList.dom_update dest: notin_set_remove1)
qed

lemma cache_get_hit:
  assumes inv: "cache_inv c" and e: "map_of (cache c) k = Some e" and live: "\<not> is_expired e now"
  shows "cache_get c now k = (Inr (Some (ce_result e)), c\<lparr>access_order := remove1 k (access_order c) @ [k]\<rparr>)"
proof -
  have "k \<in> set (access_order c)"
    using inv e by (auto simp: cache_inv_def dest: map_of_SomeD intro: rev_image_eqI)
  then show ?thesis
    using e live by (simp add: cache_get_def list_remove_def)
qed

lemma cache_inv_touch:
  assumes "cache_inv c" "k \<in> set (access_order c)"
  shows "cache_inv (c\<lparr>access_order := remove1 k (access_order c) @ [k]\<rparr>)"
  using assms by (auto simp: cache_inv_def dest: notin_set_remove1)

lemma cache_get_expired:
  assumes inv: "cache_inv c" and e: "map_of (cache c) k = Some e" and dead: "is_expired e now"
  shows "\<exists>c1. cache_get c now k = (Inr None, c1) \<and> map_of (cache c1) k = None \<and>
           k \<notin> set (access_order c1) \<and> cache_inv c1 \<and>
           (\<forall>k'. k' \<noteq> k \<longrightarrow> map_of (cache c1) k' = map_of (cache c) k')"
proof -
  have k: "k \<in> set (access_order c)"
    using inv e by (auto simp: cache_inv_def dest: map_of_SomeD intro: rev_image_eqI)
  have "cache_inv (c\<lparr>cache := AList.delete k (cache c), access_order := remove1 k (access_order c)\<rparr>)"
    using inv by (auto simp: cache_inv_def AList.distinct_delete keys_delete)
  then show ?thesis
    using e dead k inv
    by (simp add: cache_get_def list_remove_def Let_def AList.delete_conv' cache_inv_def
        AList.delete_notin_dom)
qed

text \<open>
  C7.  In a cache that satisfies its invariant: a \<open>put\<close> of a new key at capacity removes
  exactly the head of \<open>_access_order\<close>, the least recently used entry, keeps every other entry
  and stores the new one; a \<open>get\<close> that hits moves the entry to the most-recent end, so the
  next \<open>put\<close> of a new key at capacity removes the least recently used of the other
  entries and keeps the one just read, whenever it was inserted; and a \<open>get\<close> of an entry
  older than its time-to-live returns \<open>None\<close> and removes the entry from both the
  dictionary and the access order.
\<close>

theorem cache_lru_and_ttl:
  assumes inv: "cache_inv c"
  shows
    "(int (length (cache c)) \<ge> maxsize c \<and> key \<notin> fst ` set (cache c) \<and>
      access_order c = lru # order \<longrightarrow>
        map_of (cache (cache_put c now key rid res ttl)) lru = None \<and>
        (\<forall>k. k \<noteq> lru \<and> k \<noteq> key \<longrightarrow>
           map_of (cache (cache_put c now key rid res ttl)) k = map_of (cache c) k) \<and>
        (\<exists>e. map_of (cache (cache_put c now key rid res ttl)) key = Some e \<and> ce_result e = res) \<and>
        access_order (cache_put c now key rid res ttl) = order @ [key]) \<and>
     (map_of (cache c) k = Some e \<and> \<not> is_expired e now \<and>
      remove1 k (access_order c) = other # rest \<and>
      int (length (cache c)) \<ge> maxsize c \<and> key \<notin> fst ` set (cache c) \<longrightarrow>
        (\<exists>c1. cache_get c now k = (Inr (Some (ce_result e)), c1) \<and>
           map_of (cache (cache_put c1 later key rid res ttl)) k = Some e \<and>
           map_of (cache (cache_put c1 later key rid res ttl)) other = None)) \<and>
     (map_of (cache c) k = Some e \<and> is_expired e now \<longrightarrow>
        (\<exists>c1. cache_get c now k = (Inr None, c1) \<and> map_of (cache c1) k = None \<and>
           k \<notin> set (access_order c1)))"
proof (intro conjI impI)
  assume a: "int (length (cache c)) \<ge> maxsize c \<and> key \<notin> fst ` set (cache c) \<and>
      access_order c = lru # order"
  then show "map_of (cache (cache_put c now key rid res ttl)) lru = None"
    and "\<forall>k. k \<noteq> lru \<and> k \<noteq> key \<longrightarrow>
           map_of (cache (cache_put c now key rid res ttl)) k = map_of (cache c) k"
    and "\<exists>e. map_of (cache (cache_put c now key rid res ttl)) key = Some e \<and> ce_result e = res"
    and "access_order (cache_put c now key rid res ttl) = order @ [key]"
    using cache_put_evicts [OF inv, of key lru order now rid res ttl] by blast+
next
  assume a: "map_of (cache c) k = Some e \<and> \<not> is_expired e now \<and>
      remove1 k (access_order c) = other # rest \<and>
      int (length (cache c)) \<ge> maxsize c \<and> key \<notin> fst ` set (cache c)"
  define c1 where "c1 = c\<lparr>access_order := remove1 k (access_order c) @ [k]\<rparr>"
  have get: "cache_get c now k = (Inr (Some (ce_result e)), c1)"
    unfolding c1_def using a cache_get_hit [OF inv, of k e now] by simp
  have k: "k \<in> set (access_order c)"
    using inv a by (auto simp: cache_inv_def dest: map_of_SomeD intro: rev_image_eqI)
  have inv1: "cache_inv c1"
    unfolding c1_def using cache_inv_touch [OF inv k] .
  have order1: "access_order c1 = other # (rest @ [k])"
    using a by (simp add: c1_def)
  have "other \<in> set (remove1 k (access_order c))"
    using a by simp
  then have ne: "other \<noteq> k"
    using inv by (auto simp: cache_inv_def)
  have kk: "k \<noteq> key"
    using a by (auto dest: map_of_SomeD intro: rev_image_eqI)
  have full1: "int (length (cache c1)) \<ge> maxsize c1" and new1: "key \<notin> fst ` set (cache c1)"
    using a by (simp_all add: c1_def)
  from cache_put_evicts [OF inv1 full1 new1 order1, of later rid res ttl]
  have "map_of (cache (cache_put c1 later key rid res ttl)) other = None"
    and "map_of (cache (cache_put c1 later key rid res ttl)) k = map_of (cache c1) k"
    using ne kk by auto
  with get a show "\<exists>c1. cache_get c now k = (Inr (Some (ce_result e)), c1) \<and>
           map_of (cache (cache_put c1 later key rid res ttl)) k = Some e \<and>
           map_of (cache (cache_put c1 later key rid res ttl)) other = None"
    by (auto simp: c1_def)
next
  assume "map_of (cache c) k = Some e \<and> is_expired e now"
  then show "\<exists>c1. cache_get c now k = (Inr None, c1) \<and> map_of (cache c1) k = None \<and>
           k \<notin> set (access_order c1)"
    using cache_get_expired [OF inv, of k e now] by blast
qed

text \<open>
  With \<open>k1\<close> older than \<open>k2\<close>: a third key evicts \<open>k1\<close>; after a \<open>get\<close> of \<open>k1\<close> it evicts
  \<open>k2\<close> instead; and at time 301 the 300-second entry \<open>k1\<close> is gone.
\<close>

lemma two_entries_eq:
  "two_entries =
     \<lparr>maxsize = 2, default_ttl = 300,
      cache = [(''k1'', \<lparr>ce_request_id = ''req-1'', ce_result = ''result-1'', ce_timestamp = 0, ce_ttl = 300\<rparr>),
               (''k2'', \<lparr>ce_request_id = ''req-2'', ce_result = ''result-2'', ce_timestamp = 0, ce_ttl = 300\<rparr>)],
      access_order = [''k1'', ''k2'']\<rparr>"
  by (simp add: two_entries_def cache_put_def Let_def)

theorem cache_lru_and_ttl_witness:
  "cache_inv two_entries \<and>
   map_of (cache (cache_put two_entries 1 ''k3'' ''req-3'' ''result-3'' None)) ''k1'' = None \<and>
   map_option ce_result (map_of (cache (cache_put two_entries 1 ''k3'' ''req-3'' ''result-3'' None)) ''k2'')
     = Some ''result-2'' \<and>
   fst (cache_get two_entries 1 ''k1'') = Inr (Some ''result-1'') \<and>
   map_option ce_result
     (map_of (cache (cache_put (snd (cache_get two_entries 1 ''k1'')) 2 ''k3'' ''req-3'' ''result-3'' None)) ''k1'')
     = Some ''result-1'' \<and>
   map_of (cache (cache_put (snd (cache_get two_entries 1 ''k1'')) 2 ''k3'' ''req-3'' ''result-3'' None)) ''k2''
     = None \<and>
   fst (cache_get two_entries 301 ''k1'') = Inr None \<and>
   map_of (cache (snd (cache_get two_entries 301 ''k1''))) ''k1'' = None"
proof -
  have inv: "cache_inv two_entries"
    by (simp add: two_entries_eq cache_inv_def)
  let ?e1 = "\<lparr>ce_request_id = ''req-1'', ce_result = ''result-1'', ce_timestamp = 0, ce_ttl = 300\<rparr>"
  have facts:
    "int (length (cache two_entries)) \<ge> maxsize two_entries"
    "''k3'' \<notin> fst ` set (cache two_entries)"
    "access_order two_entries = [''k1'', ''k2'']"
    "remove1 ''k1'' (access_order two_entries) = [''k2'']"
    "map_of (cache two_entries) ''k1'' = Some ?e1"
    "map_of (cache two_entries) ''k2'' =
       Some \<lparr>ce_request_id = ''req-2'', ce_result = ''result-2'', ce_timestamp = 0, ce_ttl = 300\<rparr>"
    "\<not> is_expired ?e1 1" "is_expired ?e1 301"
    by (simp_all add: two_entries_eq is_expired_def)
  note A = cache_lru_and_ttl [OF inv, of "''k3''" "''k1''" "[''k2'']" 1 "''req-3''" "''result-3''" None
        "''k1''" ?e1 "''k2''" "[]" 2]
  note B = cache_lru_and_ttl [OF inv, of "''k3''" "''k1''" "[''k2'']" 301 "''req-3''" "''result-3''" None
        "''k1''" ?e1 "''k2''" "[]" 302]
  have 1: "map_of (cache (cache_put two_entries 1 ''k3'' ''req-3'' ''result-3'' None)) ''k1'' = None"
    using A [THEN conjunct1] facts by simp
  have 2: "map_of (cache (cache_put two_entries 1 ''k3'' ''req-3'' ''result-3'' None)) ''k2''
            = map_of (cache two_entries) ''k2''"
    using A [THEN conjunct1] facts by simp
  have "\<exists>c1. cache_get two_entries 1 ''k1'' = (Inr (Some (ce_result ?e1)), c1) \<and>
           map_of (cache (cache_put c1 2 ''k3'' ''req-3'' ''result-3'' None)) ''k1'' = Some ?e1 \<and>
           map_of (cache (cache_put c1 2 ''k3'' ''req-3'' ''result-3'' None)) ''k2'' = None"
    using A [THEN conjunct2, THEN conjunct1] facts by simp
  then obtain c1 where 3: "cache_get two_entries 1 ''k1'' = (Inr (Some ''result-1''), c1)"
    and 4: "map_of (cache (cache_put c1 2 ''k3'' ''req-3'' ''result-3'' None)) ''k1'' = Some ?e1"
    and 5: "map_of (cache (cache_put c1 2 ''k3'' ''req-3'' ''result-3'' None)) ''k2'' = None"
    by auto
  have "\<exists>c2. cache_get two_entries 301 ''k1'' = (Inr None, c2) \<and> map_of (cache c2) ''k1'' = None \<and>
           ''k1'' \<notin> set (access_order c2)"
    using B [THEN conjunct2, THEN conjunct2] facts by simp
  then obtain c2 where 6: "cache_get two_entries 301 ''k1'' = (Inr None, c2)"
    and 7: "map_of (cache c2) ''k1'' = None"
    by auto
  show ?thesis
    using inv 1 2 3 4 5 6 7 facts(6) by simp
qed

section \<open>State machines\<close>

text \<open>
  The route-planning machine moves from \<open>INIT\<close> straight to \<open>SUCCESS\<close> when asked to:
  \<open>StateMachine.transition\<close> checks nothing.
\<close>

theorem state_machine_unguarded_counterexample:
  "sm_state (sm_transition new_state_machine Plan_SUCCESS ''route planned'') = Plan_SUCCESS"
  by (simp add: sm_transition_def)

lemma can_transition_iff:
  "can_transition current target \<longleftrightarrow>
     (current, target) \<in> {(INIT, IN_PROGRESS), (IN_PROGRESS, CONFIRMED), (IN_PROGRESS, FAILED),
        (IN_PROGRESS, COMPENSATING), (CONFIRMED, COMPENSATING), (COMPENSATING, COMPENSATED),
        (COMPENSATING, FAILED), (FAILED, IN_PROGRESS)}"
  by (cases current; cases target) (simp_all add: can_transition_def)

text \<open>
  C8, as the code has it.  The appointment machine allows exactly the transitions
  \<open>INIT \<rightarrow> IN_PROGRESS\<close>, \<open>IN_PROGRESS \<rightarrow> CONFIRMED, FAILED, COMPENSATING\<close>,
  \<open>CONFIRMED \<rightarrow> COMPENSATING\<close>, \<open>COMPENSATING \<rightarrow> COMPENSATED, FAILED\<close> and
  \<open>FAILED \<rightarrow> IN_PROGRESS\<close>.  Any other attempt, such as \<open>INIT \<rightarrow> CONFIRMED\<close> or anything out of
  \<open>COMPENSATED\<close>, is refused by \<open>transition\<close> and leaves the state as it was; an allowed one
  is accepted.  The route-planning machine has no such relation: its \<open>transition\<close> always
  moves to the requested state and appends the state it left to the history.
\<close>

theorem state_machine_transitions:
  "(can_transition current target \<longleftrightarrow>
     (current, target) \<in> {(INIT, IN_PROGRESS), (IN_PROGRESS, CONFIRMED), (IN_PROGRESS, FAILED),
        (IN_PROGRESS, COMPENSATING), (CONFIRMED, COMPENSATING), (COMPENSATING, COMPENSATED),
        (COMPENSATING, FAILED), (FAILED, IN_PROGRESS)}) \<and>
   (\<not> can_transition current target \<longrightarrow>
      transition current target = (False, Some (Invalid_transition current target)) \<and>
      attempt current target = current) \<and>
   (can_transition current target \<longrightarrow>
      transition current target = (True, None) \<and> attempt current target = target) \<and>
   \<not> can_transition INIT CONFIRMED \<and> \<not> can_transition COMPENSATED target \<and>
   sm_state (sm_transition sm new_state reason) = new_state \<and>
   sm_history (sm_transition sm new_state reason) = sm_history sm @ [(sm_state sm, reason)]"
  using can_transition_iff [of current target]
  by (auto simp: transition_def attempt_def sm_transition_def can_transition_def)

theorem state_machine_transitions_witness:
  "\<not> can_transition INIT CONFIRMED \<and> attempt INIT CONFIRMED = INIT \<and>
   transition INIT CONFIRMED = (False, Some (Invalid_transition INIT CONFIRMED)) \<and>
   can_transition INIT IN_PROGRESS \<and> attempt INIT IN_PROGRESS = IN_PROGRESS \<and>
   transition INIT IN_PROGRESS = (True, None) \<and>
   attempt COMPENSATED IN_PROGRESS = COMPENSATED"
  using state_machine_transitions [of INIT CONFIRMED]
    state_machine_transitions [of INIT IN_PROGRESS]
    state_machine_transitions [of COMPENSATED IN_PROGRESS]
  by simp

section \<open>The empty graph\<close>

text \<open>
  A fresh routing engine asked for a route on the empty graph answers with the code
  \<open>INVALID_GRAPH\<close>: the node validation reports the start node as missing.
\<close>

theorem empty_graph_code_counterexample:
  "compute_route id 0 0 Idle (Inr (from_edge_list [])) new_cache (tiny_request ''auto'' ''B'' True) =
     Some (error_response (tiny_request ''auto'' ''B'' True) ''error'' ''INVALID_GRAPH'' None, new_cache)"
  by (simp add: compute_route_def from_edge_list_def nodes_def new_cache_def cache_get_def)

text \<open>
  C9, as the code has it.  For the empty graph, the unified service's \<open>_validate_graph\<close>
  reports \<open>EMPTY_GRAPH\<close> alone, and the validation step ends the request with that error
  code and no path; the routing engine, for every request that misses its cache, answers
  with the error code \<open>INVALID_GRAPH\<close> and no path, whatever the time limit and the timer.
\<close>

theorem empty_graph_errors:
  "validate_graph [] start goal = (False, [''EMPTY_GRAPH'']) \<and>
   validation_step [] start goal =
     Some \<lparr>v2_path = None, v2_cost = None, v2_algorithm = None, v2_status = ''error'',
           v2_error_code = Some ''EMPTY_GRAPH'', v2_error_message = Some ''EMPTY_GRAPH''\<rparr> \<and>
   (cache_get c now (request_key digest request) = (Inr None, c1) \<longrightarrow>
      compute_route digest now later clock (Inr (from_edge_list [])) c request =
        Some (error_response request ''error'' ''INVALID_GRAPH'' None, c1) \<and>
      r_path (error_response request ''error'' ''INVALID_GRAPH'' None) = None)"
  by (simp add: validation_step_def validate_graph_def post_init_def nodes_def compute_route_def
      from_edge_list_def error_response_def)

theorem empty_graph_errors_witness:
  "cache_get new_cache 0 (request_key id (tiny_request ''auto'' ''B'' True))
     = (Inr None, new_cache :: route_response idempotency_cache) \<and>
   compute_route id 0 0 Idle (Inr (from_edge_list [])) new_cache (tiny_request ''auto'' ''B'' True) =
     Some (error_response (tiny_request ''auto'' ''B'' True) ''error'' ''INVALID_GRAPH'' None, new_cache) \<and>
   validate_graph [] ''A'' ''B'' = (False, [''EMPTY_GRAPH''])"
proof -
  have miss: "cache_get new_cache 0 (request_key id (tiny_request ''auto'' ''B'' True))
                = (Inr None, new_cache :: route_response idempotency_cache)"
    by (simp add: cache_get_def new_cache_def)
  show ?thesis
    using miss empty_graph_errors [of "''A''" "''B''" new_cache 0 id "tiny_request ''auto'' ''B'' True"
        new_cache 0 Idle]
    by simp
qed

section \<open>Bellman-Ford: what the relaxation rounds establish\<close>

lemma detect_scan_None:
  "detect_scan all es distm n = None \<Longrightarrow> (u, v, w) \<in> set es \<Longrightarrow> \<not> dless (dplus (distm u) w) (distm v)"
  by (induction es) (auto simp: Let_def split: if_splits)

lemma detect_scan_Some:
  "(u, v, w) \<in> set es \<Longrightarrow> dless (dplus (distm u) w) (distm v) \<Longrightarrow> detect_scan all es distm n \<noteq> None"
  by (induction es) (auto simp: Let_def split: if_splits)

lemma detect_None_feasible: "detect_negative_cycle g distm = None \<Longrightarrow> feasible g distm"
  unfolding detect_negative_cycle_def feasible_def
  by (auto dest: detect_scan_None)



lemma feasible_walk:
  assumes "feasible g distm" and "walk g u v W" and "distm u = Finite a"
  shows "\<exists>b. distm v = Finite b \<and> b \<le> a + W"
  using assms(2)
proof (induction rule: walk.induct)
  case walk_refl
  then show ?case using assms(3) by simp
next
  case (walk_step x W v w)
  then obtain b where b: "distm x = Finite b" "b \<le> a + W" by blast
  from walk_step.hyps(2) assms(1) have "\<not> dless (dplus (distm x) w) (distm v)"
    by (auto simp: feasible_def)
  with b show ?case by (cases "distm v") auto
qed

lemma walk_trans: "walk g v x W' \<Longrightarrow> walk g u v W \<Longrightarrow> walk g u x (W + W')"
proof (induction rule: walk.induct)
  case walk_refl
  then show ?case by simp
next
  case (walk_step y W' x w)
  from walk.walk_step [OF walk_step.IH [OF walk_step.prems] walk_step.hyps(2)]
  show ?case by (simp add: add.assoc)
qed


lemma foldl_relax_edge_inv:
  assumes step: "\<And>st e. e \<in> set es \<Longrightarrow> Q (dp st) \<Longrightarrow> Q (dp (relax_edge st e))"
    and "Q (dp st)"
  shows "Q (dp (foldl relax_edge st es))"
  using assms
proof (induction es arbitrary: st)
  case Nil
  then show ?case by simp
next
  case (Cons e es)
  have 1: "Q (dp (relax_edge st e))"
    by (rule Cons.prems(1)) (simp_all add: Cons.prems(2))
  have "Q (dp (foldl relax_edge (relax_edge st e) es))"
    by (rule Cons.IH [OF _ 1]) (rule Cons.prems(1), simp_all)
  then show ?case by simp
qed

lemma relax_rounds_inv:
  assumes step: "\<And>st e. e \<in> set es \<Longrightarrow> Q (dp st) \<Longrightarrow> Q (dp (relax_edge st e))"
    and "Q st"
  shows "Q (relax_rounds k es st)"
  using assms(2)
proof (induction k arbitrary: st)
  case 0
  then show ?case by simp
next
  case (Suc k)
  obtain dm pv up where r: "relax_pass es st = (dm, pv, up)" by (cases "relax_pass es st") auto
  have "Q (dp (foldl relax_edge (fst st, snd st, False) es))"
  proof (rule foldl_relax_edge_inv)
    show "Q (dp (fst st, snd st, False))" using Suc.prems by (simp add: dp_def)
  qed (rule step)
  then have q: "Q (dm, pv)" using r by (simp add: relax_pass_def dp_def)
  have "relax_rounds (Suc k) es st = (if \<not> up then (dm, pv) else relax_rounds k es (dm, pv))"
    by (simp add: r)
  then show ?case using q Suc.IH [OF q] by simp
qed


lemma bf_inv_step:
  assumes "e \<in> set (edges g)" and "bf_inv g s (dp st)"
  shows "bf_inv g s (dp (relax_edge st e))"
proof -
  obtain dm pv up where st: "st = (dm, pv, up)" by (cases st) auto
  obtain u v w where e: "e = (u, v, w)" by (cases e) auto
  show ?thesis
  proof (cases "dless (dplus (dm u) w) (dm v)")
    case False
    then show ?thesis using assms by (simp add: st e dp_def)
  next
    case True
    then obtain a where a: "dm u = Finite a" by (cases "dm u") auto
    then have wa: "walk g s u a" using assms(2) by (simp add: bf_inv_def st dp_def)
    have wv: "walk g s v (a + w)" using walk_step [OF wa] assms(1) e by simp
    from assms(2) obtain d where d: "dm s = Finite d" "d \<le> 0"
      by (auto simp: bf_inv_def st dp_def)
    show ?thesis
      using True a wv d assms(2)
      by (auto simp: bf_inv_def st e dp_def)
  qed
qed

lemma bf_inv_init: "bf_inv g s ((\<lambda>v. Infinity)(s := Finite 0), Map.empty)"
  by (auto simp: bf_inv_def intro: walk_refl)

lemma bf_inv_rounds:
  "bf_inv g s (relax_rounds k (edges g) ((\<lambda>v. Infinity)(s := Finite 0), Map.empty))"
  by (rule relax_rounds_inv [where Q = "bf_inv g s"]) (auto intro: bf_inv_step bf_inv_init)

lemma validate_nodes_exist_two:
  "validate_nodes_exist g [a, b] = Inr () \<longleftrightarrow> a \<in> set (nodes g) \<and> b \<in> set (nodes g)"
  by simp

text \<open>
  A negative cycle that can be reached from the start makes Bellman-Ford raise, on every
  graph in the exact range.
\<close>

lemma bellman_ford_negative_cycle:
  assumes nodes: "start \<in> set (nodes g)" "goal \<in> set (nodes g)"
    and exact: "exact_weights g"
    and reach: "walk g start u W0" and cyc: "walk g u u W" and neg: "W < 0"
  shows "\<exists>cycle cycle_cost. bellman_ford g start goal = Some (Inl (NegativeCycleError cycle cycle_cost))"
proof -
  obtain dm pv where r: "relax_rounds (length (nodes g) - 1) (edges g)
      ((\<lambda>v. Infinity)(start := Finite 0), Map.empty) = (dm, pv)"
    by (cases "relax_rounds (length (nodes g) - 1) (edges g) ((\<lambda>v. Infinity)(start := Finite 0), Map.empty)") auto
  have inv: "bf_inv g start (dm, pv)"
    using bf_inv_rounds [of g start "length (nodes g) - 1"] r by simp
  have "detect_negative_cycle g dm \<noteq> None"
  proof
    assume "detect_negative_cycle g dm = None"
    then have f: "feasible g dm" by (rule detect_None_feasible)
    from inv obtain d where d: "dm start = Finite d" by (auto simp: bf_inv_def)
    from feasible_walk [OF f reach d] obtain b where b: "dm u = Finite b" by blast
    from feasible_walk [OF f cyc b] b have "b \<le> b + W" by auto
    with neg show False by simp
  qed
  then obtain cycle cycle_cost where "detect_negative_cycle g dm = Some (cycle, cycle_cost)"
    by (cases "detect_negative_cycle g dm") auto
  then show ?thesis
    using nodes by (simp add: bellman_ford_def r [unfolded One_nat_def])
qed

lemma reconstruct_path_root: "prev v = None \<Longrightarrow> reconstruct_path prev v = Some [v]"
  unfolding reconstruct_path_def
  by (subst reconstruct_loop.simps, simp, subst reconstruct_loop.simps, simp)

lemma bellman_ford_same_node:
  assumes "s \<in> set (nodes g)" and "exact_weights g"
  shows "(\<exists>cycle cycle_cost. bellman_ford g s s = Some (Inl (NegativeCycleError cycle cycle_cost))) \<or>
         bellman_ford g s s = Some (Inr ([s], 0))"
proof -
  obtain dm pv where r: "relax_rounds (length (nodes g) - 1) (edges g)
      ((\<lambda>v. Infinity)(s := Finite 0), Map.empty) = (dm, pv)"
    by (cases "relax_rounds (length (nodes g) - 1) (edges g) ((\<lambda>v. Infinity)(s := Finite 0), Map.empty)") auto
  have inv: "bf_inv g s (dm, pv)"
    using bf_inv_rounds [of g s "length (nodes g) - 1"] r by simp
  show ?thesis
  proof (cases "detect_negative_cycle g dm")
    case (Some c)
    then show ?thesis using assms(1) by (cases c) (simp add: bellman_ford_def r [unfolded One_nat_def])
  next
    case None
    then have f: "feasible g dm" by (rule detect_None_feasible)
    from inv obtain d where d: "dm s = Finite d" "d \<le> 0" "walk g s s d"
      by (auto simp: bf_inv_def)
    from feasible_walk [OF f d(3) d(1)] d have d0: "d = 0" by auto
    with inv d have "pv s = None" by (auto simp: bf_inv_def)
    then have rp: "reconstruct_path pv s = Some [s]" by (rule reconstruct_path_root)
    have ds: "dm s = Finite 0" using d(1) d0 by simp
    have "bellman_ford g s s = Some (Inr ([s], 0))"
      unfolding bellman_ford_def using assms(1) by (simp add: r [unfolded One_nat_def] None ds rp)
    then show ?thesis by simp
  qed
qed


lemma dijkstra_same_node:
  assumes "s \<in> set (nodes g)" and "\<not> has_negative_weights g"
  shows "dijkstra g s s = Some (Inr ([s], 0))"
proof -
  have pop: "heappop [(0, s)] = ((0, s), [])"
    by (simp add: heappop_def)
  have "dijkstra_loop g s [s \<mapsto> 0] Map.empty [(0, s)] {} = Inr (Map.empty, 0)"
    by (subst dijkstra_loop.simps) (simp add: pop)
  then show ?thesis
    using assms by (simp add: dijkstra_def reconstruct_path_root)
qed

lemma compute_same_node_cases:
  assumes "s \<in> set (nodes g)" and "exact_weights g"
  shows "compute algorithm g s s = Some (Inr ([s], 0)) \<or>
         compute algorithm g s s = Some (Inl (ValueError NonNegativeWeightsRequired)) \<or>
         (\<exists>cycle cycle_cost. compute algorithm g s s = Some (Inl (NegativeCycleError cycle cycle_cost)))"
proof (cases algorithm)
  case DijkstraAlgorithm
  show ?thesis
  proof (cases "has_negative_weights g")
    case True
    then have "dijkstra g s s = Some (Inl (ValueError NonNegativeWeightsRequired))"
      by (simp add: dijkstra_def)
    with DijkstraAlgorithm show ?thesis by simp
  next
    case False
    with assms(1) DijkstraAlgorithm show ?thesis by (simp add: dijkstra_same_node)
  qed
next
  case BellmanFordAlgorithm
  with bellman_ford_same_node [OF assms] show ?thesis by auto
qed

lemma handle_exception_error:
  "e \<noteq> TimeoutError \<Longrightarrow> r_status (handle_exception request e) = ''error'' \<and>
     r_path (handle_exception request e) = None \<and> r_cost (handle_exception request e) = None"
  by (cases e) (simp_all add: error_response_def)

section \<open>Negative cycles\<close>

text \<open>
  C1, at a failing input.  On the two-node cycle \<open>B \<rightarrow> A\<close> (weight \<open>-3\<close>), \<open>A \<rightarrow> B\<close> (weight 1),
  whose weight is \<open>-2\<close>, Bellman-Ford from \<open>A\<close> raises \<open>NegativeCycleError\<close>, as it does for
  every reachable negative cycle in the exact range (\<open>bellman_ford_negative_cycle\<close>), but the
  cost it reports
  is \<open>1\<close>: the cost loop looks each edge up in the direction opposite to the one the
  backward walk followed.
\<close>

theorem negative_cycle_cost_positive:
  "bellman_ford two_cycle ''A'' ''B'' = Some (Inl (NegativeCycleError [''B'', ''A''] 1))"
  by code_simp

text \<open>
  With an exit edge \<open>A \<rightarrow> T\<close> listed first, the reported cycle \<open>B, A, T\<close> is not closed:
  \<open>T\<close> has no outgoing edge at all.
\<close>

lemma negative_cycle_not_closed:
  "bellman_ford cycle_with_exit ''A'' ''B'' = Some (Inl (NegativeCycleError [''B'', ''A'', ''T''] 1))"
  "neighbors cycle_with_exit ''T'' = []"
  by code_simp+

section \<open>Start equals goal\<close>

lemma self_first:
  "compute_route id 0 1 Idle (Inr tiny_graph) new_cache (tiny_request ''auto'' ''A'' False) =
     Some (self_response False,
           cache_put new_cache 1 (request_key id (tiny_request ''auto'' ''A'' False)) ''r1''
             (self_response False) None)"
proof -
  have "dijkstra tiny_graph ''A'' ''A'' = Some (Inr ([''A''], 0))"
    by code_simp
  moreover have "validate_nodes_exist tiny_graph [''A'', ''A''] = Inr ()"
    by code_simp
  moreover have "\<not> has_negative_weights tiny_graph"
    by code_simp
  ultimately show ?thesis
    by (simp add: compute_route_def new_cache_def cache_get_def tiny_request_def self_response_def
        timeout_def tiny_sizes select_def Let_def del: validate_nodes_exist.simps)
qed

text \<open>
  A request from \<open>A\<close> to \<open>A\<close> with validation disabled succeeds with the path \<open>A\<close> and cost
  0 and is stored; the same request with validation enabled, two seconds later, is
  answered from the cache with that success.
\<close>

theorem start_equals_goal_cached_counterexample:
  "compute_route id 0 1 Idle (Inr tiny_graph) new_cache (tiny_request ''auto'' ''A'' False) =
     Some (self_response False,
           cache_put new_cache 1 (request_key id (tiny_request ''auto'' ''A'' False)) ''r1''
             (self_response False) None) \<and>
   validate_result (tiny_request ''auto'' ''A'' True) \<and>
   map_option fst
     (compute_route id 2 3 Idle (Inr tiny_graph)
        (cache_put new_cache 1 (request_key id (tiny_request ''auto'' ''A'' False)) ''r1''
           (self_response False) None)
        (tiny_request ''auto'' ''A'' True)) =
     Some (self_response True) \<and>
   r_status (self_response True) = ''success'' \<and> r_cost (self_response True) = Some 0"
proof -
  have key: "request_key id (tiny_request ''auto'' ''A'' True) = request_key id (tiny_request ''auto'' ''A'' False)"
    by (simp add: request_key_def tiny_request_def)
  have "\<exists>c'. cache_get (cache_put new_cache 1 (request_key id (tiny_request ''auto'' ''A'' False)) ''r1''
           (self_response False) None) 2 (request_key id (tiny_request ''auto'' ''A'' False))
         = (Inr (Some (self_response False)), c')"
    by (rule cache_get_after_put) (simp add: new_cache_def)
  then obtain c' where "cache_get (cache_put new_cache 1 (request_key id (tiny_request ''auto'' ''A'' False)) ''r1''
           (self_response False) None) 2 (request_key id (tiny_request ''auto'' ''A'' False))
         = (Inr (Some (self_response False)), c')" by blast
  then have "map_option fst
     (compute_route id 2 3 Idle (Inr tiny_graph)
        (cache_put new_cache 1 (request_key id (tiny_request ''auto'' ''A'' False)) ''r1''
           (self_response False) None)
        (tiny_request ''auto'' ''A'' True)) = Some (self_response True)"
    by (simp add: compute_route_def key mark_cache_hit_def self_response_def)
  then show ?thesis
    using self_first by (simp add: tiny_request_def self_response_def)
qed

text \<open>
  C10, as the code has it.  For a graph in the exact range that contains the node \<open>s\<close>:
  whichever algorithm is selected, for start and goal \<open>s\<close> it returns the single-node path
  \<open>[s]\<close> with cost 0 or raises (Dijkstra on a negative weight, Bellman-Ford on a negative
  cycle); the validator rejects the single-node path as too short; and a request from \<open>s\<close>
  to \<open>s\<close> with validation enabled that misses the cache always gets a response that is not
  a success and has neither path nor cost.  Its status is \<open>timeout\<close> when an algorithm was
  selected, the time limit is positive and the alarm goes off during the computation, and
  \<open>error\<close> in every other case, a time limit the timer refuses included.
\<close>

theorem start_equals_goal_is_error:
  assumes node: "s \<in> set (nodes g)"
    and exact: "exact_weights g"
    and miss: "cache_get c now (request_key digest request) = (Inr None, c1)"
    and req: "start_node request = s" "goal_node request = s" "validate_result request"
  shows "(compute algorithm g s s = Some (Inr ([s], 0)) \<or>
          compute algorithm g s s = Some (Inl (ValueError NonNegativeWeightsRequired)) \<or>
          (\<exists>cycle cycle_cost.
             compute algorithm g s s = Some (Inl (NegativeCycleError cycle cycle_cost)))) \<and>
         validate_path g [s] 0 = Inl (ValidationError PathTooShort) \<and>
         (\<exists>resp. compute_route digest now later clock (Inr g) c request = Some (resp, c1) \<and>
            r_status resp \<noteq> ''success'' \<and> r_path resp = None \<and> r_cost resp = None \<and>
            r_status resp =
              (if (\<exists>a. select g (algorithm_hint request) = Inr a) \<and> 0 < timeout_ms request \<and>
                  clock = Expired
               then ''timeout'' else ''error''))"
proof -
  have alg: "compute algorithm g s s = Some (Inr ([s], 0)) \<or>
          compute algorithm g s s = Some (Inl (ValueError NonNegativeWeightsRequired)) \<or>
          (\<exists>cycle cycle_cost.
             compute algorithm g s s = Some (Inl (NegativeCycleError cycle cycle_cost)))"
    by (rule compute_same_node_cases [OF node exact])
  have vp: "validate_path g [s] 0 = Inl (ValidationError PathTooShort)"
    by (simp add: validate_path_def)
  have nodes_ok: "validate_nodes_exist g [start_node request, goal_node request] = Inr ()"
    using node req by simp
  let ?st = "if (\<exists>a. select g (algorithm_hint request) = Inr a) \<and> 0 < timeout_ms request \<and>
                clock = Expired
             then ''timeout'' else ''error''"
  have "\<exists>resp. compute_route digest now later clock (Inr g) c request = Some (resp, c1) \<and>
            r_status resp \<noteq> ''success'' \<and> r_path resp = None \<and> r_cost resp = None \<and>
            r_status resp = ?st"
  proof (cases "select g (algorithm_hint request)")
    case (Inl e)
    then have "e \<noteq> TimeoutError" by (auto simp: select_def split: if_splits)
    with Inl show ?thesis
      using miss nodes_ok handle_exception_error [of e request]
      by (simp add: compute_route_def del: validate_nodes_exist.simps)
  next
    case (Inr a)
    consider (ok) "compute a g s s = Some (Inr ([s], 0))"
      | (err) e where "compute a g s s = Some (Inl e)" "e \<noteq> TimeoutError"
      using compute_same_node_cases [OF node exact, of a] by auto
    then obtain r where body: "compute a g s s = Some r"
      and final: "r = Inr ([s], 0) \<or> (\<exists>e. r = Inl e \<and> e \<noteq> TimeoutError)"
      by cases auto
    consider (refused) "timeout_ms request < 0 \<or> clock = Refused"
      | (expired) "0 < timeout_ms request" "clock = Expired"
      | (finished) "0 \<le> timeout_ms request" "clock \<noteq> Refused"
          "\<not> (0 < timeout_ms request \<and> clock = Expired)"
      by (cases clock) force+
    then show ?thesis
    proof cases
      case refused
      then have "timeout (real_of_int (timeout_ms request) / 1000) clock (compute a g s s) =
                   Some (Inl (OtherException ''ItimerError''))"
        by (auto simp: timeout_def)
      with Inr refused show ?thesis
        using miss nodes_ok req
        by (auto simp: compute_route_def error_response_def simp del: validate_nodes_exist.simps)
    next
      case expired
      then have "timeout (real_of_int (timeout_ms request) / 1000) clock (compute a g s s) =
                   Some (Inl TimeoutError)"
        by (simp add: timeout_def body)
      with Inr expired show ?thesis
        using miss nodes_ok req
        by (simp add: compute_route_def error_response_def del: validate_nodes_exist.simps)
    next
      case finished
      then have t: "timeout (real_of_int (timeout_ms request) / 1000) clock (compute a g s s) =
                   Some r"
        by (auto simp: timeout_def body)
      from final show ?thesis
      proof
        assume "r = Inr ([s], 0)"
        with Inr t finished show ?thesis
          using miss nodes_ok req vp
          by (simp add: compute_route_def error_response_def del: validate_nodes_exist.simps)
      next
        assume "\<exists>e. r = Inl e \<and> e \<noteq> TimeoutError"
        then obtain e where "r = Inl e" "e \<noteq> TimeoutError" by blast
        with Inr t finished show ?thesis
          using miss nodes_ok req handle_exception_error [of e request]
          by (simp add: compute_route_def del: validate_nodes_exist.simps)
      qed
    qed
  qed
  with alg vp show ?thesis by blast
qed

text \<open>
  The one-edge graph, a fresh engine and the default limit of five seconds: the request
  from \<open>A\<close> to \<open>A\<close> is answered with an error.
\<close>

theorem start_equals_goal_is_error_witness:
  "''A'' \<in> set (nodes tiny_graph) \<and> exact_weights tiny_graph \<and>
   cache_get new_cache 0 (request_key id (tiny_request ''auto'' ''A'' True))
     = (Inr None, new_cache :: route_response idempotency_cache) \<and>
   validate_path tiny_graph [''A''] 0 = Inl (ValidationError PathTooShort) \<and>
   (\<exists>resp. compute_route id 0 1 Idle (Inr tiny_graph) new_cache (tiny_request ''auto'' ''A'' True)
             = Some (resp, new_cache) \<and> r_status resp = ''error'')"
proof -
  have node: "''A'' \<in> set (nodes tiny_graph)"
    by code_simp
  have exact: "exact_weights tiny_graph"
    by code_simp
  have miss: "cache_get new_cache 0 (request_key id (tiny_request ''auto'' ''A'' True))
                = (Inr None, new_cache :: route_response idempotency_cache)"
    by (simp add: cache_get_def new_cache_def)
  have req: "start_node (tiny_request ''auto'' ''A'' True) = ''A''"
    "goal_node (tiny_request ''auto'' ''A'' True) = ''A''"
    "validate_result (tiny_request ''auto'' ''A'' True)"
    by (simp_all add: tiny_request_def)
  show ?thesis
    using node exact miss start_equals_goal_is_error [OF node exact miss req, of _ 1 Idle]
    by auto
qed

section \<open>Dijkstra and Bellman-Ford on non-negative weights\<close>

subsection \<open>Graphs as the constructors build them\<close>

lemma edges_iff: "(u, v, w) \<in> set (edges g) \<longleftrightarrow> (\<exists>nb. (u, nb) \<in> set g \<and> (v, w) \<in> set nb)"
  by (auto simp: edges_def)


lemma edge_source_node: "(u, v, w) \<in> set (edges g) \<Longrightarrow> u \<in> set (nodes g)"
  by (force simp: edges_iff nodes_def)




subsection \<open>Walks can be shortened to simple paths\<close>



lemma spath_walk: "spath g s vs v W \<Longrightarrow> walk g s v W"
  by (induction rule: spath.induct) (auto intro: walk.intros)






subsection \<open>Bellman-Ford converges within its rounds\<close>














subsection \<open>Predecessor chains and path reconstruction\<close>





subsection \<open>Bellman-Ford returns the least weight\<close>





subsection \<open>Dijkstra returns the least weight\<close>












subsection \<open>The two algorithms compared\<close>








end
